theory Spec2Isabelle
  imports Main "HOL-Library.Sublist"
begin

section \<open>Errors and panics\<close>

text \<open>
  The package-level error values of the queue package (\<open>ErrOutOfCapacity\<close>,
  \<open>ErrEmptyQueue\<close>), the error a cancelled context reports (\<open>ctx.Err()\<close>) and the
  wrapped "unknown error" the delay queue builds with \<open>fmt.Errorf\<close>.
\<close>

datatype error = ErrOutOfCapacity | ErrEmptyQueue | Cancelled | UnexpectedInternalError error

text \<open>Run-time panics of Go that the modelled code could raise.\<close>

datatype panic = DivideByZero | IndexOutOfRange | MakeSliceOutOfRange | NilDereference
  | UnlockOfUnlockedMutex | CloseOfClosedChannel

section \<open>Slice shrinking (internal/slice/shrink.go)\<close>

text \<open>Go's integer division truncates towards zero and panics on a zero divisor.\<close>

definition go_div :: "int \<Rightarrow> int \<Rightarrow> panic + int" where
  "go_div a b = (if b = 0 then Inl DivideByZero else Inr (sgn a * sgn b * (\<bar>a\<bar> div \<bar>b\<bar>)))"

text \<open>
  Conversion of a non-negative integer to \<open>float32\<close>: the value is rounded to a 24-bit
  significand, ties to even. \<open>f32_exp n\<close> is the number of low bits that do not fit.
\<close>

fun f32_exp :: "nat \<Rightarrow> nat" where
  "f32_exp n = (if n < 2 ^ 24 then 0 else Suc (f32_exp (n div 2)))"

declare f32_exp.simps [simp del]

definition float32_round :: "nat \<Rightarrow> nat" where
  "float32_round n =
     (let e = f32_exp n; q = n div 2 ^ e; r = n mod 2 ^ e
      in if 2 ^ e < 2 * r \<or> (2 * r = 2 ^ e \<and> odd q) then (q + 1) * 2 ^ e else q * 2 ^ e)"

text \<open>
  \<open>int(float32(c) * float32(0.625))\<close> for \<open>c > 0\<close>. The factor is \<open>5/8\<close>, which
  \<open>float32\<close> holds exactly. The exact product of \<open>float32(c)\<close> and \<open>5/8\<close> is rounded to a
  24-bit significand again; rounding commutes with the scaling by \<open>1/8\<close>, so eight times
  the product is \<open>float32_round (5 * float32_round c)\<close>, and the conversion to \<open>int\<close>
  truncates.
\<close>

definition mul_0625_f32 :: "int \<Rightarrow> int" where
  "mul_0625_f32 c = int (float32_round (5 * float32_round (nat c)) div 8)"

text \<open>
  \<open>calCapacity(c, l)\<close>. The operands of \<open>&&\<close> are evaluated left to right, so \<open>c/l\<close> is
  evaluated (and panics for \<open>l = 0\<close>) as soon as \<open>c > 64\<close>.
\<close>

definition calCapacity :: "int \<Rightarrow> int \<Rightarrow> panic + (int \<times> bool)" where
  "calCapacity c l =
     (if c \<le> 64 then Inr (c, False)
      else case (if c > 2048 then map_sum id (\<lambda>q. q \<ge> 2) (go_div c l) else Inr False) of
        Inl e \<Rightarrow> Inl e
      | Inr True \<Rightarrow> Inr (mul_0625_f32 c, True)
      | Inr False \<Rightarrow>
          (case (if c \<le> 2048 then map_sum id (\<lambda>q. q \<ge> 4) (go_div c l) else Inr False) of
             Inl e \<Rightarrow> Inl e
           | Inr True \<Rightarrow> map_sum id (\<lambda>h. (h, True)) (go_div c 2)
           | Inr False \<Rightarrow> Inr (c, False)))"

section \<open>Go slices\<close>

text \<open>
  A slice is modelled by its visible elements and the capacity of its backing array.
  Every slice below is owned by one queue, so sharing of backing arrays plays no role.
\<close>

record 'a slice =
  elems :: "'a list"
  cap :: nat

text \<open>
  \<open>make([]T, len, cap)\<close>: \<open>len\<close> zero values. It panics when the sizes are out of range: a
  negative length, a capacity below the length, or a capacity whose backing array would
  exceed what the runtime allocates. The last bound depends on the platform and on the
  size of the element type; it is the parameter \<open>lim\<close>, the greatest number of elements a
  backing array can have. The zero value of the element type is the parameter \<open>z\<close>.
\<close>

definition make_slice :: "int \<Rightarrow> 'a \<Rightarrow> int \<Rightarrow> int \<Rightarrow> panic + 'a slice" where
  "make_slice lim z len c =
     (if len < 0 \<or> c < len \<or> lim < c then Inl MakeSliceOutOfRange
      else Inr \<lparr>elems = replicate (nat len) z, cap = nat c\<rparr>)"

text \<open>
  \<open>append(s, xs...)\<close>. While the result fits the capacity the backing array is kept;
  otherwise the runtime allocates a larger one, whose capacity \<open>grow c n\<close> (for the old
  capacity \<open>c\<close> and the needed length \<open>n\<close>) is the runtime's choice and a parameter here.
\<close>

definition append_go :: "(nat \<Rightarrow> nat \<Rightarrow> nat) \<Rightarrow> 'a slice \<Rightarrow> 'a list \<Rightarrow> 'a slice" where
  "append_go grow s xs =
     (let n = length (elems s) + length xs
      in \<lparr>elems = elems s @ xs, cap = (if n \<le> cap s then cap s else grow (cap s) n)\<rparr>)"

text \<open>
  \<open>make([]T, 0, cap)\<close> in \<open>Shrink\<close>, which needs no zero value. The capacity asked for there
  is not above that of the slice that is shrunk, whose backing array the runtime has
  allocated, so that the bound on the size of a backing array is met.
\<close>

definition make_empty :: "int \<Rightarrow> panic + 'a slice" where
  "make_empty c = (if c < 0 then Inl MakeSliceOutOfRange else Inr \<lparr>elems = [], cap = nat c\<rparr>)"

text \<open>An index expression \<open>xs[i]\<close> panics out of range.\<close>

definition index :: "'a list \<Rightarrow> nat \<Rightarrow> panic + 'a" where
  "index xs i = (if i < length xs then Inr (xs ! i) else Inl IndexOutOfRange)"

text \<open>The assignment \<open>xs[i] = v\<close>.\<close>

definition assign :: "'a list \<Rightarrow> nat \<Rightarrow> 'a \<Rightarrow> panic + 'a list" where
  "assign xs i v = (if i < length xs then Inr (xs[i := v]) else Inl IndexOutOfRange)"

text \<open>
  The tuple assignment \<open>xs[i], xs[j] = xs[j], xs[i]\<close>: both operands are read first, then
  \<open>xs[i]\<close> and \<open>xs[j]\<close> are written in this order.
\<close>

definition swap_at :: "'a list \<Rightarrow> nat \<Rightarrow> nat \<Rightarrow> panic + 'a list" where
  "swap_at xs i j =
     (if i < length xs \<and> j < length xs then Inr (xs[i := xs ! j, j := xs ! i])
      else Inl IndexOutOfRange)"

text \<open>The test \<open>compare(xs[a], xs[b]) < 0\<close>.\<close>

definition less_at :: "('a \<Rightarrow> 'a \<Rightarrow> int) \<Rightarrow> 'a list \<Rightarrow> nat \<Rightarrow> nat \<Rightarrow> panic + bool" where
  "less_at cmp xs a b =
     (if a < length xs \<and> b < length xs then Inr (cmp (xs ! a) (xs ! b) < 0)
      else Inl IndexOutOfRange)"

text \<open>\<open>Shrink(src)\<close>: the same slice, or a copy of it in a backing array of the new capacity.\<close>

definition Shrink :: "(nat \<Rightarrow> nat \<Rightarrow> nat) \<Rightarrow> 'a slice \<Rightarrow> panic + 'a slice" where
  "Shrink grow src =
     (case calCapacity (int (cap src)) (int (length (elems src))) of
        Inl e \<Rightarrow> Inl e
      | Inr (n, changed) \<Rightarrow>
          if \<not> changed then Inr src
          else (case make_empty n of
                  Inl e \<Rightarrow> Inl e
                | Inr s \<Rightarrow> Inr (append_go grow s (elems src))))"

section \<open>The priority queue (a binary min-heap in a slice, root at index 1)\<close>

record 'a PriorityQueue =
  compare :: "'a \<Rightarrow> 'a \<Rightarrow> int"
  capacity :: int
  data :: "'a slice"

text \<open>\<open>int\<close> is a 64-bit integer; \<open>capacity + 1\<close> wraps around.\<close>

definition wrap64 :: "int \<Rightarrow> int" where
  "wrap64 x = (x + 2 ^ 63) mod 2 ^ 64 - 2 ^ 63"

definition NewPriorityQueue ::
  "int \<Rightarrow> 'a \<Rightarrow> int \<Rightarrow> ('a \<Rightarrow> 'a \<Rightarrow> int) \<Rightarrow> panic + 'a PriorityQueue" where
  "NewPriorityQueue lim z capacity0 cmp =
     (let sliceCap = wrap64 (capacity0 + 1);
          (capacity1, sliceCap) = (if capacity0 < 1 then (0, 64) else (capacity0, sliceCap))
      in case make_slice lim z 1 sliceCap of
           Inl e \<Rightarrow> Inl e
         | Inr d \<Rightarrow> Inr \<lparr>compare = cmp, capacity = capacity1, data = d\<rparr>)"

definition Len :: "'a PriorityQueue \<Rightarrow> int" where
  "Len p = int (length (elems (data p))) - 1"

definition Cap :: "'a PriorityQueue \<Rightarrow> int" where
  "Cap p = capacity p"

definition IsBoundless :: "'a PriorityQueue \<Rightarrow> bool" where
  "IsBoundless p = (capacity p \<le> 0)"

definition isFull :: "'a PriorityQueue \<Rightarrow> bool" where
  "isFull p = (capacity p > 0 \<and> int (length (elems (data p))) - 1 = capacity p)"

definition isEmpty :: "'a PriorityQueue \<Rightarrow> bool" where
  "isEmpty p = (length (elems (data p)) < 2)"

text \<open>
  Every operation returns a panic, or its Go result together with the queue after the
  call. \<open>Peek\<close> and the failing branches return the queue they were given.
\<close>

definition Peek :: "'a PriorityQueue \<Rightarrow> panic + ((error + 'a) \<times> 'a PriorityQueue)" where
  "Peek p =
     (if isEmpty p then Inr (Inl ErrEmptyQueue, p)
      else case index (elems (data p)) 1 of
             Inl e \<Rightarrow> Inl e
           | Inr v \<Rightarrow> Inr (Inr v, p))"

text \<open>
  The sift-up loop of \<open>Enqueue\<close>:
  \<open>for parent > 0 && compare(data[node], data[parent]) < 0 { swap; node = parent; parent = parent / 2 }\<close>.
\<close>

function siftUp :: "('a \<Rightarrow> 'a \<Rightarrow> int) \<Rightarrow> 'a list \<Rightarrow> nat \<Rightarrow> nat \<Rightarrow> panic + 'a list" where
  "siftUp cmp xs node parent =
     (if parent > 0 then
        (case less_at cmp xs node parent of
           Inl e \<Rightarrow> Inl e
         | Inr b \<Rightarrow>
             if b then
               (case swap_at xs parent node of
                  Inl e \<Rightarrow> Inl e
                | Inr xs' \<Rightarrow> siftUp cmp xs' parent (parent div 2))
             else Inr xs)
      else Inr xs)"
  by pat_completeness auto
termination
  by (relation "measure (\<lambda>(cmp, xs, node, parent). parent)") auto

declare siftUp.simps [simp del]

definition Enqueue ::
  "(nat \<Rightarrow> nat \<Rightarrow> nat) \<Rightarrow> 'a PriorityQueue \<Rightarrow> 'a \<Rightarrow> panic + (error option \<times> 'a PriorityQueue)" where
  "Enqueue grow p t =
     (if isFull p then Inr (Some ErrOutOfCapacity, p)
      else
        let d = append_go grow (data p) [t];
            node = length (elems d) - 1;
            parent = (length (elems d) - 1) div 2
        in case siftUp (compare p) (elems d) node parent of
             Inl e \<Rightarrow> Inl e
           | Inr xs \<Rightarrow> Inr (None, p\<lparr>data := d\<lparr>elems := xs\<rparr>\<rparr>))"

definition shrinkIfNecessary ::
  "(nat \<Rightarrow> nat \<Rightarrow> nat) \<Rightarrow> 'a PriorityQueue \<Rightarrow> panic + 'a PriorityQueue" where
  "shrinkIfNecessary grow p =
     (if IsBoundless p then
        (case Shrink grow (data p) of Inl e \<Rightarrow> Inl e | Inr d \<Rightarrow> Inr (p\<lparr>data := d\<rparr>))
      else Inr p)"

text \<open>
  The sift-down loop \<open>heapify(data, n, i)\<close>. The variable \<open>minPos\<close> equals \<open>i\<close> at the head
  of every iteration (initially, and after \<open>i = minPos\<close>), so it is bound afresh in each
  iteration here.
\<close>

function heapify :: "('a \<Rightarrow> 'a \<Rightarrow> int) \<Rightarrow> 'a list \<Rightarrow> nat \<Rightarrow> nat \<Rightarrow> panic + 'a list" where
  "heapify cmp dat n i =
     (case (if i * 2 \<le> n then less_at cmp dat (i * 2) i else Inr False) of
        Inl e \<Rightarrow> Inl e
      | Inr b1 \<Rightarrow>
          let minPos = (if b1 then i * 2 else i) in
          (case (if i * 2 + 1 \<le> n then less_at cmp dat (i * 2 + 1) minPos else Inr False) of
             Inl e \<Rightarrow> Inl e
           | Inr b2 \<Rightarrow>
               let minPos = (if b2 then i * 2 + 1 else minPos) in
               if minPos = i then Inr dat
               else (case swap_at dat i minPos of
                       Inl e \<Rightarrow> Inl e
                     | Inr dat' \<Rightarrow> heapify cmp dat' n minPos)))"
  by pat_completeness auto
termination
proof (relation "measure (\<lambda>(cmp, dat, n, i). Suc n - i)", goal_cases)
  case 1
  show ?case by simp
next
  case (2 cmp dat n i b1 minPos b2 minPos' dat')
  then show ?case by (auto split: if_splits)
qed

declare heapify.simps [simp del]

text \<open>
  The first statements of \<open>Dequeue\<close> on a non-empty queue:
  \<open>pop := p.data[1]; p.data[1] = p.data[len(p.data)-1]; p.data = p.data[:len(p.data)-1]\<close>.
  The result is the removed root and the queue that \<open>shrinkIfNecessary\<close> is called on.
\<close>

definition removeRoot :: "'a PriorityQueue \<Rightarrow> panic + ('a \<times> 'a PriorityQueue)" where
  "removeRoot p =
     (let xs = elems (data p) in
      case index xs 1 of
        Inl e \<Rightarrow> Inl e
      | Inr pop \<Rightarrow>
          (case index xs (length xs - 1) of
             Inl e \<Rightarrow> Inl e
           | Inr lst \<Rightarrow>
               (case assign xs 1 lst of
                  Inl e \<Rightarrow> Inl e
                | Inr xs1 \<Rightarrow>
                    Inr (pop, p\<lparr>data := (data p)\<lparr>elems := take (length xs1 - 1) xs1\<rparr>\<rparr>))))"

definition Dequeue ::
  "(nat \<Rightarrow> nat \<Rightarrow> nat) \<Rightarrow> 'a PriorityQueue \<Rightarrow> panic + ((error + 'a) \<times> 'a PriorityQueue)" where
  "Dequeue grow p =
     (if isEmpty p then Inr (Inl ErrEmptyQueue, p)
      else
        case removeRoot p of
          Inl e \<Rightarrow> Inl e
        | Inr (pop, p1) \<Rightarrow>
            (case shrinkIfNecessary grow p1 of
               Inl e \<Rightarrow> Inl e
             | Inr p2 \<Rightarrow>
                 let dat = elems (data p2) in
                 (case heapify (compare p2) dat (length dat - 1) 1 of
                    Inl e \<Rightarrow> Inl e
                  | Inr dat' \<Rightarrow> Inr (Inr pop, p2\<lparr>data := (data p2)\<lparr>elems := dat'\<rparr>\<rparr>))))"

section \<open>The heap invariant\<close>

text \<open>
  What the proofs need of a comparator: \<open>a\<close> precedes \<open>b\<close> exactly when \<open>b\<close> follows \<open>a\<close>, and
  "precedes or ties" is transitive. Every three-way comparator of a total order has both
  properties (so has the comparator of a total preorder, such as "by remaining delay").
\<close>

definition total_order_cmp :: "('a \<Rightarrow> 'a \<Rightarrow> int) \<Rightarrow> bool" where
  "total_order_cmp cmp \<longleftrightarrow>
     (\<forall>a b. (cmp a b < 0) = (0 < cmp b a)) \<and>
     (\<forall>a b c. cmp a b \<le> 0 \<longrightarrow> cmp b c \<le> 0 \<longrightarrow> cmp a c \<le> 0)"

text \<open>The invariant of the specification: \<open>compare(heap[i], heap[i/2]) \<ge> 0\<close> for every \<open>i > 1\<close>.\<close>

definition heap_prop :: "('a \<Rightarrow> 'a \<Rightarrow> int) \<Rightarrow> 'a list \<Rightarrow> bool" where
  "heap_prop cmp xs = (\<forall>i\<in>{2..<length xs}. 0 \<le> cmp (xs ! i) (xs ! (i div 2)))"

definition min_heap :: "'a PriorityQueue \<Rightarrow> bool" where
  "min_heap p = heap_prop (compare p) (elems (data p))"

text \<open>The elements a queue holds: index 0 of the slice is unused.\<close>

definition held :: "'a PriorityQueue \<Rightarrow> 'a list" where
  "held p = tl (elems (data p))"

text \<open>The ascending comparator on integers.\<close>

definition int_cmp :: "int \<Rightarrow> int \<Rightarrow> int" where
  "int_cmp a b = (if a < b then - 1 else if a = b then 0 else 1)"

text \<open>The states a queue can be in: built by the constructor, then changed by its methods.\<close>

inductive reachable ::
  "(nat \<Rightarrow> nat \<Rightarrow> nat) \<Rightarrow> ('a \<Rightarrow> 'a \<Rightarrow> int) \<Rightarrow> 'a PriorityQueue \<Rightarrow> bool"
  for grow :: "nat \<Rightarrow> nat \<Rightarrow> nat" and cmp :: "'a \<Rightarrow> 'a \<Rightarrow> int" where
  reach_new: "NewPriorityQueue lim z c cmp = Inr p \<Longrightarrow> reachable grow cmp p"
| reach_peek: "reachable grow cmp p \<Longrightarrow> Peek p = Inr (r, p') \<Longrightarrow> reachable grow cmp p'"
| reach_enqueue: "reachable grow cmp p \<Longrightarrow> Enqueue grow p t = Inr (e, p') \<Longrightarrow> reachable grow cmp p'"
| reach_dequeue: "reachable grow cmp p \<Longrightarrow> Dequeue grow p = Inr (r, p') \<Longrightarrow> reachable grow cmp p'"

text \<open>
  The states of the scenario of the specification: a queue of integers bounded by 2,
  whose slice was made with capacity 3.
\<close>

definition bounded2 :: "int list \<Rightarrow> int PriorityQueue" where
  "bounded2 xs = \<lparr>compare = int_cmp, capacity = 2, data = \<lparr>elems = xs, cap = 3\<rparr>\<rparr>"

text \<open>States of an unbounded queue of integers, whose slice was made with capacity 64.\<close>

definition unbounded :: "int list \<Rightarrow> int PriorityQueue" where
  "unbounded xs = \<lparr>compare = int_cmp, capacity = 0, data = \<lparr>elems = xs, cap = 64\<rparr>\<rparr>"

section \<open>The broadcast condition (queue/delay_queue.go)\<close>

text \<open>
  The mutex a condition is coupled with, the channels made so far (a channel is its
  index in \<open>chans\<close>, the entry tells whether it is closed), and the primitive actions in the
  order in which they took place.
\<close>

datatype event = MadeChan nat | Installed nat | Locked | Unlocked | Closed nat

record sync =
  locked :: bool
  chans :: "bool list"
  trace :: "event list"

record cond =
  signal :: nat

text \<open>\<open>make(chan struct{})\<close>: a new open channel.\<close>

definition make_chan :: "sync \<Rightarrow> nat \<times> sync" where
  "make_chan s =
     (length (chans s),
      s\<lparr>chans := chans s @ [False], trace := trace s @ [MadeChan (length (chans s))]\<rparr>)"

text \<open>
  \<open>Lock()\<close> returns once the mutex is free; on a held mutex the caller waits, which in
  the run of a single call is \<open>None\<close>.
\<close>

definition lock :: "sync \<Rightarrow> sync option" where
  "lock s = (if locked s then None else Some (s\<lparr>locked := True, trace := trace s @ [Locked]\<rparr>))"

text \<open>\<open>Unlock()\<close> of a mutex that is not held is a fatal error.\<close>

definition unlock :: "sync \<Rightarrow> panic + sync" where
  "unlock s =
     (if locked s then Inr (s\<lparr>locked := False, trace := trace s @ [Unlocked]\<rparr>)
      else Inl UnlockOfUnlockedMutex)"

text \<open>\<open>close(ch)\<close> panics on a closed channel.\<close>

definition close_chan :: "nat \<Rightarrow> sync \<Rightarrow> panic + sync" where
  "close_chan ch s =
     (if ch < length (chans s) \<and> \<not> chans s ! ch
      then Inr (s\<lparr>chans := (chans s)[ch := True], trace := trace s @ [Closed ch]\<rparr>)
      else Inl CloseOfClosedChannel)"

definition newCond :: "sync \<Rightarrow> cond \<times> sync" where
  "newCond s = (let (ch, s1) = make_chan s in (\<lparr>signal = ch\<rparr>, s1))"

text \<open>
  \<open>broadcast\<close>:
  \<open>signal := make(chan struct{}); old := c.signal; c.signal = signal; c.l.Unlock(); close(old)\<close>.
\<close>

definition broadcast :: "cond \<Rightarrow> sync \<Rightarrow> panic + (cond \<times> sync)" where
  "broadcast c s =
     (let (new, s1) = make_chan s;
          old = signal c;
          c1 = c\<lparr>signal := new\<rparr>;
          s2 = s1\<lparr>trace := trace s1 @ [Installed new]\<rparr>
      in case unlock s2 of
           Inl e \<Rightarrow> Inl e
         | Inr s3 \<Rightarrow>
             (case close_chan old s3 of
                Inl e \<Rightarrow> Inl e
              | Inr s4 \<Rightarrow> Inr (c1, s4)))"

text \<open>\<open>signalCh\<close>: \<open>res := c.signal; c.l.Unlock(); return res\<close>.\<close>

definition signalCh :: "cond \<Rightarrow> sync \<Rightarrow> panic + (nat \<times> sync)" where
  "signalCh c s =
     (let res = signal c
      in case unlock s of Inl e \<Rightarrow> Inl e | Inr s1 \<Rightarrow> Inr (res, s1))"

text \<open>
  The states a condition and its mutex can be in: the condition is made by \<open>newCond\<close>;
  then the mutex is locked and unlocked, the condition's own methods run, and other
  conditions on the same mutex make channels and close channels of their own.
\<close>

inductive cond_reachable :: "cond \<Rightarrow> sync \<Rightarrow> bool" where
  cr_new: "newCond s0 = (c, s) \<Longrightarrow> cond_reachable c s"
| cr_lock: "cond_reachable c s \<Longrightarrow> lock s = Some s' \<Longrightarrow> cond_reachable c s'"
| cr_unlock: "cond_reachable c s \<Longrightarrow> unlock s = Inr s' \<Longrightarrow> cond_reachable c s'"
| cr_broadcast: "cond_reachable c s \<Longrightarrow> broadcast c s = Inr (c', s') \<Longrightarrow> cond_reachable c' s'"
| cr_signalCh: "cond_reachable c s \<Longrightarrow> signalCh c s = Inr (ch, s') \<Longrightarrow> cond_reachable c s'"
| cr_other_make: "cond_reachable c s \<Longrightarrow> make_chan s = (ch, s') \<Longrightarrow> cond_reachable c s'"
| cr_other_close:
    "cond_reachable c s \<Longrightarrow> ch \<noteq> signal c \<Longrightarrow> close_chan ch s = Inr s' \<Longrightarrow> cond_reachable c s'"

section \<open>The delay queue (queue/delay_queue.go)\<close>

text \<open>
  The model follows one call of \<open>Enqueue\<close> or \<open>Dequeue\<close>. The other goroutines, the
  context, the timer and the clock act on the call through what it observes in one
  iteration of its loop:
  \<^item> \<open>ctx_done\<close>: the context is done at the check at the head of the iteration;
  \<^item> \<open>others\<close>: what the other goroutines have done to the slice of the priority queue
    \<open>d.q\<close> while the mutex was free, from the moment the call released it last (or was
    made, in the first iteration) to the moment \<open>d.mutex.Lock()\<close> at the head of the
    iteration returns;
  \<^item> \<open>delays\<close>: what \<open>Delay()\<close> returns for each element while the call holds the mutex;
  \<^item> \<open>wake\<close>: the case the three-way \<open>select\<close> (context, timer, signal) takes;
  \<^item> \<open>others_timer\<close>: what the other goroutines have done to the slice between
    \<open>signalCh\<close> releasing the mutex and \<open>d.mutex.Lock()\<close> returning after the timer fired;
  \<^item> \<open>delays_timer\<close>: what \<open>Delay()\<close> returns after the timer has fired;
  \<^item> \<open>ctx_wins\<close>: the two-way \<open>select\<close> (context, signal) takes the context's case.
  The other goroutines change the queue by its methods, which write to its slice only,
  and they hold the mutex while they do; whatever they do to the slice is allowed here.
\<close>

datatype wake = CtxDone | TimerFired | Signalled

record 'a obs =
  ctx_done :: bool
  others :: "'a slice \<Rightarrow> 'a slice"
  delays :: "'a \<Rightarrow> int"
  wake :: wake
  others_timer :: "'a slice \<Rightarrow> 'a slice"
  delays_timer :: "'a \<Rightarrow> int"
  ctx_wins :: bool

text \<open>The priority queue as the call finds it after the other goroutines have done \<open>f\<close>.\<close>

definition after_others ::
  "('a slice \<Rightarrow> 'a slice) \<Rightarrow> 'a PriorityQueue \<Rightarrow> 'a PriorityQueue" where
  "after_others f p = p\<lparr>data := f (data p)\<rparr>"

text \<open>
  All that the other goroutines do to the slice during the iterations with the given
  observations, in the order in which a call can meet it.
\<close>

definition interference :: "'a obs list \<Rightarrow> ('a slice \<Rightarrow> 'a slice) list" where
  "interference obs = concat (map (\<lambda>ob. [others ob, others_timer ob]) obs)"

text \<open>What a slice has become when the other goroutines have done \<open>fs\<close> to it, one after the other.\<close>

primrec apply_all :: "('a slice \<Rightarrow> 'a slice) list \<Rightarrow> 'a slice \<Rightarrow> 'a slice" where
  "apply_all [] s = s"
| "apply_all (f # fs) s = apply_all fs (f s)"

record 'a DelayQueue =
  q :: "'a PriorityQueue"
  mutex :: sync
  dequeueSignal :: cond
  enqueueSignal :: cond

text \<open>
  The comparator that \<open>NewDelayQueue\<close> passes to the priority queue compares
  \<open>src.Delay()\<close> with \<open>dst.Delay()\<close>; \<open>dl\<close> is what \<open>Delay()\<close> returns when it is called.
\<close>

definition delay_cmp :: "('a \<Rightarrow> int) \<Rightarrow> 'a \<Rightarrow> 'a \<Rightarrow> int" where
  "delay_cmp dl src dst =
     (let srcDelay = dl src; dstDelay = dl dst
      in if srcDelay > dstDelay then 1 else if srcDelay = dstDelay then 0 else - 1)"

definition NewDelayQueue :: "int \<Rightarrow> 'a \<Rightarrow> ('a \<Rightarrow> int) \<Rightarrow> int \<Rightarrow> panic + 'a DelayQueue" where
  "NewDelayQueue lim z dl c =
     (let m = \<lparr>locked = False, chans = [], trace = []\<rparr>
      in case NewPriorityQueue lim z c (delay_cmp dl) of
           Inl e \<Rightarrow> Inl e
         | Inr p \<Rightarrow>
             let (dc, m1) = newCond m; (ec, m2) = newCond m1
             in Inr \<lparr>q = p, mutex = m2, dequeueSignal = dc, enqueueSignal = ec\<rparr>)"

text \<open>
  What one iteration of a loop does: it returns from the call, or goes round again, or
  waits for the mutex for ever.
\<close>

datatype 'r step = Return 'r | Continue | Blocked

text \<open>
  One iteration of the loop of \<open>Enqueue(ctx, t)\<close>. The call inserts into \<open>d.q\<close> as the
  other goroutines have left it, and the comparator of the priority queue reads the
  delays of this critical section.
\<close>

definition DelayQueue_Enqueue_iter ::
  "(nat \<Rightarrow> nat \<Rightarrow> nat) \<Rightarrow> 'a obs \<Rightarrow> 'a DelayQueue \<Rightarrow> 'a \<Rightarrow>
     panic + (error option step \<times> 'a DelayQueue)" where
  "DelayQueue_Enqueue_iter grow ob d t =
     (if ctx_done ob then Inr (Return (Some Cancelled), d)
      else case lock (mutex d) of
        None \<Rightarrow> Inr (Blocked, d)
      | Some m1 \<Rightarrow>
          (case Enqueue grow
                  ((after_others (others ob) (q d))\<lparr>compare := delay_cmp (delays ob)\<rparr>) t of
             Inl e \<Rightarrow> Inl e
           | Inr (err, p) \<Rightarrow>
               (case err of
                  None \<Rightarrow>
                    (case broadcast (enqueueSignal d) m1 of
                       Inl e \<Rightarrow> Inl e
                     | Inr (c, m2) \<Rightarrow>
                         Inr (Return None, d\<lparr>q := p, mutex := m2, enqueueSignal := c\<rparr>))
                | Some ErrOutOfCapacity \<Rightarrow>
                    (case signalCh (dequeueSignal d) m1 of
                       Inl e \<Rightarrow> Inl e
                     | Inr (sig, m2) \<Rightarrow>
                         if ctx_wins ob then Inr (Return (Some Cancelled), d\<lparr>q := p, mutex := m2\<rparr>)
                         else Inr (Continue, d\<lparr>q := p, mutex := m2\<rparr>))
                | Some other \<Rightarrow>
                    (case unlock m1 of
                       Inl e \<Rightarrow> Inl e
                     | Inr m2 \<Rightarrow>
                         Inr (Return (Some (UnexpectedInternalError other)),
                              d\<lparr>q := p, mutex := m2\<rparr>)))))"

text \<open>
  The loop of \<open>Enqueue\<close> over the observations of its iterations. \<open>None\<close>: the call has not
  returned when the observations end.
\<close>

fun DelayQueue_Enqueue ::
  "(nat \<Rightarrow> nat \<Rightarrow> nat) \<Rightarrow> 'a obs list \<Rightarrow> 'a DelayQueue \<Rightarrow> 'a \<Rightarrow>
     panic + (error option option \<times> 'a DelayQueue)" where
  "DelayQueue_Enqueue grow [] d t = Inr (None, d)"
| "DelayQueue_Enqueue grow (ob # obs) d t =
     (case DelayQueue_Enqueue_iter grow ob d t of
        Inl e \<Rightarrow> Inl e
      | Inr (Return r, d') \<Rightarrow> Inr (Some r, d')
      | Inr (Continue, d') \<Rightarrow> DelayQueue_Enqueue grow obs d' t
      | Inr (Blocked, d') \<Rightarrow> Inr (None, d'))"

text \<open>
  \<open>val, err = d.q.Dequeue(); d.dequeueSignal.broadcast(); return val, err\<close>, the end of
  both paths of \<open>Dequeue\<close> that remove an element. \<open>dl\<close> are the delays the comparator reads.
\<close>

definition dequeue_and_broadcast ::
  "(nat \<Rightarrow> nat \<Rightarrow> nat) \<Rightarrow> ('a \<Rightarrow> int) \<Rightarrow> 'a DelayQueue \<Rightarrow>
     panic + ((error + 'a) step \<times> 'a DelayQueue)" where
  "dequeue_and_broadcast grow dl d =
     (case Dequeue grow ((q d)\<lparr>compare := delay_cmp dl\<rparr>) of
        Inl e \<Rightarrow> Inl e
      | Inr (r, p) \<Rightarrow>
          (case broadcast (dequeueSignal d) (mutex d) of
             Inl e \<Rightarrow> Inl e
           | Inr (c, m) \<Rightarrow> Inr (Return r, d\<lparr>q := p, mutex := m, dequeueSignal := c\<rparr>)))"

text \<open>
  One iteration of the loop of \<open>Dequeue(ctx)\<close>. Each time the call has got the mutex it
  reads \<open>d.q\<close> as the other goroutines have left it: at the head of the iteration, and
  again after the timer has fired, where the head of the queue may be another element
  or the queue may be empty.
\<close>

definition DelayQueue_Dequeue_iter ::
  "(nat \<Rightarrow> nat \<Rightarrow> nat) \<Rightarrow> 'a obs \<Rightarrow> 'a DelayQueue \<Rightarrow>
     panic + ((error + 'a) step \<times> 'a DelayQueue)" where
  "DelayQueue_Dequeue_iter grow ob d =
     (if ctx_done ob then Inr (Return (Inl Cancelled), d)
      else case lock (mutex d) of
        None \<Rightarrow> Inr (Blocked, d)
      | Some m1 \<Rightarrow>
          let d1 = d\<lparr>q := after_others (others ob) (q d), mutex := m1\<rparr> in
          (case Peek (q d1) of
             Inl e \<Rightarrow> Inl e
           | Inr (Inr val, _) \<Rightarrow>
               let delay = delays ob val in
               if delay \<le> 0 then dequeue_and_broadcast grow (delays ob) d1
               else
                 (case signalCh (enqueueSignal d1) (mutex d1) of
                    Inl e \<Rightarrow> Inl e
                  | Inr (sig, m2) \<Rightarrow>
                      let d2 = d1\<lparr>mutex := m2\<rparr> in
                      (case wake ob of
                         CtxDone \<Rightarrow> Inr (Return (Inl Cancelled), d2)
                       | TimerFired \<Rightarrow>
                           (case lock (mutex d2) of
                              None \<Rightarrow> Inr (Blocked, d2)
                            | Some m3 \<Rightarrow>
                                let d3 = d2\<lparr>q := after_others (others_timer ob) (q d2),
                                            mutex := m3\<rparr> in
                                (case Peek (q d3) of
                                   Inl e \<Rightarrow> Inl e
                                 | Inr (r2, _) \<Rightarrow>
                                     if (case r2 of Inl err \<Rightarrow> True
                                                  | Inr val2 \<Rightarrow> delays_timer ob val2 > 0)
                                     then (case unlock (mutex d3) of
                                             Inl e \<Rightarrow> Inl e
                                           | Inr m4 \<Rightarrow> Inr (Continue, d3\<lparr>mutex := m4\<rparr>))
                                     else dequeue_and_broadcast grow (delays_timer ob) d3))
                       | Signalled \<Rightarrow> Inr (Continue, d2)))
           | Inr (Inl ErrEmptyQueue, _) \<Rightarrow>
               (case signalCh (enqueueSignal d1) (mutex d1) of
                  Inl e \<Rightarrow> Inl e
                | Inr (sig, m2) \<Rightarrow>
                    if ctx_wins ob then Inr (Return (Inl Cancelled), d1\<lparr>mutex := m2\<rparr>)
                    else Inr (Continue, d1\<lparr>mutex := m2\<rparr>))
           | Inr (Inl other, _) \<Rightarrow>
               (case unlock (mutex d1) of
                  Inl e \<Rightarrow> Inl e
                | Inr m2 \<Rightarrow>
                    Inr (Return (Inl (UnexpectedInternalError other)), d1\<lparr>mutex := m2\<rparr>))))"

text \<open>The loop of \<open>Dequeue\<close> over the observations of its iterations.\<close>

fun DelayQueue_Dequeue ::
  "(nat \<Rightarrow> nat \<Rightarrow> nat) \<Rightarrow> 'a obs list \<Rightarrow> 'a DelayQueue \<Rightarrow>
     panic + ((error + 'a) option \<times> 'a DelayQueue)" where
  "DelayQueue_Dequeue grow [] d = Inr (None, d)"
| "DelayQueue_Dequeue grow (ob # obs) d =
     (case DelayQueue_Dequeue_iter grow ob d of
        Inl e \<Rightarrow> Inl e
      | Inr (Return r, d') \<Rightarrow> Inr (Some r, d')
      | Inr (Continue, d') \<Rightarrow> DelayQueue_Dequeue grow obs d'
      | Inr (Blocked, d') \<Rightarrow> Inr (None, d'))"

text \<open>
  Observations for a queue of integers, each element being the time at which it becomes
  ready: at time \<open>now\<close> the remaining delay of \<open>x\<close> is \<open>x - now\<close>.
\<close>

definition obs_at :: "int \<Rightarrow> int \<Rightarrow> wake \<Rightarrow> bool \<Rightarrow> int obs" where
  "obs_at now later w cw =
     \<lparr>ctx_done = False, others = (\<lambda>s. s), delays = (\<lambda>x. x - now), wake = w,
      others_timer = (\<lambda>s. s), delays_timer = (\<lambda>x. x - later), ctx_wins = cw\<rparr>"

definition obs_cancelled :: "int obs" where
  "obs_cancelled =
     \<lparr>ctx_done = True, others = (\<lambda>s. s), delays = (\<lambda>x. x), wake = CtxDone,
      others_timer = (\<lambda>s. s), delays_timer = (\<lambda>x. x), ctx_wins = True\<rparr>"

text \<open>
  The observations of an iteration in which no element whatsoever is ready and the other
  goroutines leave the queue alone.
\<close>

definition obs_waiting :: "wake \<Rightarrow> bool \<Rightarrow> int obs" where
  "obs_waiting w cw =
     \<lparr>ctx_done = False, others = (\<lambda>s. s), delays = (\<lambda>x. 1), wake = w,
      others_timer = (\<lambda>s. s), delays_timer = (\<lambda>x. 1), ctx_wins = cw\<rparr>"

text \<open>
  The slice after another goroutine has put the heap \<open>xs\<close> into it, and the observations
  of an iteration during whose wait for the timer this has happened.
\<close>

definition put_heap :: "int list \<Rightarrow> int slice \<Rightarrow> int slice" where
  "put_heap xs s = s\<lparr>elems := xs\<rparr>"

definition obs_meanwhile :: "int \<Rightarrow> int \<Rightarrow> int list \<Rightarrow> int obs" where
  "obs_meanwhile now later xs = (obs_at now later TimerFired False)\<lparr>others_timer := put_heap xs\<rparr>"

text \<open>
  A delay queue of integers with the given capacity bound, slice capacity and slice
  contents, its mutex free and its two conditions on the channels 0 and 1.
\<close>

definition delay_queue_of :: "int \<Rightarrow> nat \<Rightarrow> int list \<Rightarrow> int DelayQueue" where
  "delay_queue_of c k xs =
     \<lparr>q = \<lparr>compare = delay_cmp (\<lambda>x. x), capacity = c, data = \<lparr>elems = xs, cap = k\<rparr>\<rparr>,
      mutex = \<lparr>locked = False, chans = [False, False], trace = []\<rparr>,
      dequeueSignal = \<lparr>signal = 0\<rparr>, enqueueSignal = \<lparr>signal = 1\<rparr>\<rparr>"

text \<open>The growth policy used in the concrete runs: twice the needed length.\<close>

definition grow_double :: "nat \<Rightarrow> nat \<Rightarrow> nat" where
  "grow_double c n = 2 * n"

section \<open>The lock-free queue (ConcurrentLinkedQueue)\<close>

text \<open>
  Nodes live in a store; the address of a node is its index, a pointer is an address or
  \<open>nil\<close> (\<open>None\<close>). A node is never freed.
\<close>

record 'a node =
  val :: 'a
  nxt :: "nat option"

text \<open>What a call returns: the \<open>error\<close> of \<open>Enqueue\<close>, the \<open>(T, error)\<close> of \<open>Dequeue\<close>.\<close>

datatype 'a ret = EnqueueRet "error option" | DequeueRet "error + 'a"

text \<open>
  The atomic operations of \<open>sync/atomic\<close> are sequentially consistent, so a run of the
  goroutines is an interleaving of their atomic steps. The place of a goroutine in its
  call, with the local variables that are live there:
  \<^item> \<open>Enq0 t\<close>: at \<open>newNode := &node[T]{val: t}\<close>;
  \<^item> \<open>Enq1 newPtr\<close>: at \<open>tailPtr := atomic.LoadPointer(&c.tail)\<close>, the head of the loop;
  \<^item> \<open>Enq2 newPtr tailPtr\<close>: at \<open>tailNext := atomic.LoadPointer(&tail.next)\<close> and the test
    \<open>tailNext != nil\<close>;
  \<^item> \<open>Enq3 newPtr tailPtr\<close>: at \<open>CompareAndSwapPointer(&tail.next, tailNext, newPtr)\<close>, where
    \<open>tailNext\<close> is \<open>nil\<close>;
  \<^item> \<open>Enq4 newPtr tailPtr\<close>: at \<open>CompareAndSwapPointer(&c.tail, tailPtr, newPtr)\<close>;
  \<^item> \<open>Deq1\<close>: at \<open>headPtr := atomic.LoadPointer(&c.head)\<close>, the head of the loop;
  \<^item> \<open>Deq2 headPtr\<close>: at \<open>tailPtr := atomic.LoadPointer(&c.tail)\<close> and the test \<open>head == tail\<close>;
  \<^item> \<open>Deq3 headPtr\<close>: at \<open>headNextPtr := atomic.LoadPointer(&head.next)\<close>;
  \<^item> \<open>Deq4 headPtr headNextPtr\<close>: at \<open>CompareAndSwapPointer(&c.head, headPtr, headNextPtr)\<close>
    and, when it succeeds, \<open>return headNext.val, nil\<close>;
  \<^item> \<open>Done r\<close>: the call has returned \<open>r\<close>;
  \<^item> \<open>Crashed\<close>: a nil pointer was dereferenced.
  \<open>newPtr\<close> is the address of a node that was just allocated, so it is not \<open>nil\<close>.
\<close>

datatype 'a pc =
  Idle
  | Enq0 'a
  | Enq1 nat
  | Enq2 nat "nat option"
  | Enq3 nat "nat option"
  | Enq4 nat "nat option"
  | Deq1
  | Deq2 "nat option"
  | Deq3 "nat option"
  | Deq4 "nat option" "nat option"
  | Done "'a ret"
  | Crashed

text \<open>
  The queue, the goroutines that use it, and two history variables that the code does
  not have: \<open>linked\<close> lists the goroutine and the node of every successful
  \<open>CompareAndSwapPointer(&tail.next, \<dots>)\<close>, \<open>removed\<close> the goroutine and the node whose
  value it returns for every successful \<open>CompareAndSwapPointer(&c.head, \<dots>)\<close>, both in the
  order of these operations.
\<close>

record 'a clq =
  nodes :: "'a node list"
  head :: "nat option"
  tail :: "nat option"
  threads :: "nat \<Rightarrow> 'a pc"
  linked :: "(nat \<times> nat) list"
  removed :: "(nat \<times> nat) list"

text \<open>\<open>NewConcurrentLinkedQueue\<close>: one empty node, head and tail point to it.\<close>

definition NewConcurrentLinkedQueue :: "'a \<Rightarrow> 'a clq" where
  "NewConcurrentLinkedQueue z =
     \<lparr>nodes = [\<lparr>val = z, nxt = None\<rparr>], head = Some 0, tail = Some 0,
      threads = (\<lambda>t. Idle), linked = [], removed = []\<rparr>"

definition set_pc :: "nat \<Rightarrow> 'a pc \<Rightarrow> 'a clq \<Rightarrow> 'a clq" where
  "set_pc t p s = s\<lparr>threads := (threads s)(t := p)\<rparr>"

definition set_nxt :: "nat \<Rightarrow> nat option \<Rightarrow> 'a clq \<Rightarrow> 'a clq" where
  "set_nxt a p s = s\<lparr>nodes := (nodes s)[a := (nodes s ! a)\<lparr>nxt := p\<rparr>]\<rparr>"

text \<open>One atomic step of goroutine \<open>t\<close>.\<close>

definition step :: "nat \<Rightarrow> 'a clq \<Rightarrow> 'a clq" where
  "step t s =
     (case threads s t of
        Enq0 v \<Rightarrow>
          set_pc t (Enq1 (length (nodes s)))
            (s\<lparr>nodes := nodes s @ [\<lparr>val = v, nxt = None\<rparr>]\<rparr>)
      | Enq1 newPtr \<Rightarrow> set_pc t (Enq2 newPtr (tail s)) s
      | Enq2 newPtr tailPtr \<Rightarrow>
          (case tailPtr of
             None \<Rightarrow> set_pc t Crashed s
           | Some tp \<Rightarrow>
               if nxt (nodes s ! tp) \<noteq> None then set_pc t (Enq1 newPtr) s
               else set_pc t (Enq3 newPtr tailPtr) s)
      | Enq3 newPtr tailPtr \<Rightarrow>
          (case tailPtr of
             None \<Rightarrow> set_pc t Crashed s
           | Some tp \<Rightarrow>
               if nxt (nodes s ! tp) = None
               then set_pc t (Enq4 newPtr tailPtr)
                      ((set_nxt tp (Some newPtr) s)\<lparr>linked := linked s @ [(t, newPtr)]\<rparr>)
               else set_pc t (Enq1 newPtr) s)
      | Enq4 newPtr tailPtr \<Rightarrow>
          set_pc t (Done (EnqueueRet None))
            (if tail s = tailPtr then s\<lparr>tail := Some newPtr\<rparr> else s)
      | Deq1 \<Rightarrow> set_pc t (Deq2 (head s)) s
      | Deq2 headPtr \<Rightarrow>
          if headPtr = tail s then set_pc t (Done (DequeueRet (Inl ErrEmptyQueue))) s
          else set_pc t (Deq3 headPtr) s
      | Deq3 headPtr \<Rightarrow>
          (case headPtr of
             None \<Rightarrow> set_pc t Crashed s
           | Some h \<Rightarrow> set_pc t (Deq4 headPtr (nxt (nodes s ! h))) s)
      | Deq4 headPtr headNextPtr \<Rightarrow>
          if head s = headPtr then
            (case headNextPtr of
               None \<Rightarrow> set_pc t Crashed (s\<lparr>head := headNextPtr\<rparr>)
             | Some hn \<Rightarrow>
                 set_pc t (Done (DequeueRet (Inr (val (nodes s ! hn)))))
                   (s\<lparr>head := headNextPtr, removed := removed s @ [(t, hn)]\<rparr>))
          else set_pc t Deq1 s
      | _ \<Rightarrow> s)"

text \<open>
  What happens in a run: an idle goroutine calls \<open>Enqueue\<close> or \<open>Dequeue\<close>, a goroutine takes
  a step, a goroutine whose call has returned becomes idle again.
\<close>

datatype 'a action = CallEnqueue nat 'a | CallDequeue nat | Step nat | Finish nat

definition act :: "'a action \<Rightarrow> 'a clq \<Rightarrow> 'a clq" where
  "act a s =
     (case a of
        CallEnqueue t v \<Rightarrow> if threads s t = Idle then set_pc t (Enq0 v) s else s
      | CallDequeue t \<Rightarrow> if threads s t = Idle then set_pc t Deq1 s else s
      | Step t \<Rightarrow> step t s
      | Finish t \<Rightarrow> (case threads s t of Done r \<Rightarrow> set_pc t Idle s | _ \<Rightarrow> s))"

definition run :: "'a action list \<Rightarrow> 'a clq \<Rightarrow> 'a clq" where
  "run as s = fold act as s"

text \<open>The states of every interleaving of every number of goroutines.\<close>

inductive clq_reachable :: "'a clq \<Rightarrow> bool" where
  clq_init: "clq_reachable (NewConcurrentLinkedQueue z)"
| clq_act: "clq_reachable s \<Longrightarrow> clq_reachable (act a s)"

text \<open>
  The nodes in the order in which they were linked, after the first node; the values
  the queue holds: those of the linked nodes that no \<open>Dequeue\<close> has removed.
\<close>

definition chain :: "'a clq \<Rightarrow> nat list" where
  "chain s = 0 # map snd (linked s)"

definition content :: "'a clq \<Rightarrow> 'a list" where
  "content s = map (\<lambda>a. val (nodes s ! a)) (drop (length (removed s)) (map snd (linked s)))"

text \<open>
  The invariant of the reachable states. The linked nodes form one list without
  repetition, each node pointing to the next one and the last one to \<open>nil\<close>.
\<close>

definition wf_chain :: "'a clq \<Rightarrow> bool" where
  "wf_chain s \<longleftrightarrow>
     distinct (chain s) \<and> (\<forall>a\<in>set (chain s). a < length (nodes s)) \<and>
     (\<forall>i<length (chain s).
        nxt (nodes s ! (chain s ! i)) =
          (if Suc i < length (chain s) then Some (chain s ! Suc i) else None))"

text \<open>
  The head points to the node of the last removal (to the first node when there was
  none), and the removed nodes are the first linked ones, in the order of linking.
\<close>

definition wf_head :: "'a clq \<Rightarrow> bool" where
  "wf_head s \<longleftrightarrow>
     length (removed s) < length (chain s) \<and>
     head s = Some (chain s ! length (removed s)) \<and>
     map snd (removed s) = take (length (removed s)) (map snd (linked s))"

text \<open>
  The tail points to the last node, or to the one before it while the goroutine that
  linked the last node has not yet swung the tail. \<open>tail_idx\<close> is the position of the
  tail's node in the chain.
\<close>

definition tail_idx :: "'a clq \<Rightarrow> nat" where
  "tail_idx s =
     (if \<exists>t a tp. threads s t = Enq4 a tp then length (chain s) - 2 else length (chain s) - 1)"

definition wf_tail :: "'a clq \<Rightarrow> bool" where
  "wf_tail s \<longleftrightarrow>
     tail s = Some (chain s ! tail_idx s) \<and> length (removed s) \<le> tail_idx s \<and>
     (\<forall>t a tp. threads s t = Enq4 a tp \<longrightarrow>
        2 \<le> length (chain s) \<and> a = last (chain s) \<and> tp = tail s \<and>
        (\<forall>t' a' tp'. threads s t' = Enq4 a' tp' \<longrightarrow> t' = t))"

text \<open>
  A node that was allocated and not yet linked belongs to one goroutine, is not in the
  chain and points to \<open>nil\<close>.
\<close>

definition new_of :: "'a pc \<Rightarrow> nat option" where
  "new_of p = (case p of Enq1 a \<Rightarrow> Some a | Enq2 a tp \<Rightarrow> Some a | Enq3 a tp \<Rightarrow> Some a | _ \<Rightarrow> None)"

definition wf_owner :: "'a clq \<Rightarrow> bool" where
  "wf_owner s \<longleftrightarrow>
     (\<forall>t a. new_of (threads s t) = Some a \<longrightarrow>
        a < length (nodes s) \<and> a \<notin> set (chain s) \<and> nxt (nodes s ! a) = None) \<and>
     (\<forall>t t' a. new_of (threads s t) = Some a \<longrightarrow> new_of (threads s t') = Some a \<longrightarrow> t = t')"

text \<open>
  The pointers a goroutine has loaded: a tail pointer is in the chain, not behind the
  tail; a head pointer is in the chain, not behind the head, and before the tail once it
  was found to differ from the tail; the loaded successor of the head is its successor
  in the chain. No goroutine has crashed.
\<close>

definition wf_local :: "'a clq \<Rightarrow> nat \<Rightarrow> bool" where
  "wf_local s t =
     (case threads s t of
        Enq2 a tp \<Rightarrow> (\<exists>i\<le>tail_idx s. tp = Some (chain s ! i))
      | Enq3 a tp \<Rightarrow> (\<exists>i\<le>tail_idx s. tp = Some (chain s ! i))
      | Deq2 hp \<Rightarrow> (\<exists>i\<le>length (removed s). hp = Some (chain s ! i))
      | Deq3 hp \<Rightarrow> (\<exists>i\<le>length (removed s). i < tail_idx s \<and> hp = Some (chain s ! i))
      | Deq4 hp hn \<Rightarrow>
          (\<exists>i\<le>length (removed s). i < tail_idx s \<and> hp = Some (chain s ! i) \<and>
             hn = Some (chain s ! Suc i))
      | Crashed \<Rightarrow> False
      | _ \<Rightarrow> True)"

definition clq_inv :: "'a clq \<Rightarrow> bool" where
  "clq_inv s \<longleftrightarrow>
     wf_chain s \<and> wf_head s \<and> wf_tail s \<and> wf_owner s \<and> (\<forall>t. wf_local s t)"

text \<open>
  How a history variable has grown from \<open>old\<close> to \<open>new\<close>, seen from goroutine \<open>t\<close>: by
  entries of other goroutines only; or by these and exactly one entry of \<open>t\<close>, for the
  node \<open>a\<close>.
\<close>

definition grown_without :: "nat \<Rightarrow> (nat \<times> nat) list \<Rightarrow> (nat \<times> nat) list \<Rightarrow> bool" where
  "grown_without t old new \<longleftrightarrow>
     prefix old new \<and> filter (\<lambda>e. fst e = t) (drop (length old) new) = []"

definition grown_once :: "nat \<Rightarrow> nat \<Rightarrow> (nat \<times> nat) list \<Rightarrow> (nat \<times> nat) list \<Rightarrow> bool" where
  "grown_once t a old new \<longleftrightarrow>
     prefix old new \<and> filter (\<lambda>e. fst e = t) (drop (length old) new) = [(t, a)]"

text \<open>The node at address \<open>a\<close> exists and carries the value \<open>v\<close>.\<close>

definition holds :: "'a clq \<Rightarrow> nat \<Rightarrow> 'a \<Rightarrow> bool" where
  "holds s a v \<longleftrightarrow> a < length (nodes s) \<and> val (nodes s ! a) = v"

text \<open>
  What is true of goroutine \<open>t\<close> in state \<open>s\<close> from its call of \<open>Enqueue(v)\<close>, made in
  state \<open>s0\<close>, until it becomes idle again: before its successful compare-and-swap on
  \<open>tail.next\<close> it has linked nothing; after it, it has linked one node, its own, which
  carries \<open>v\<close>; and when the call has returned, it has returned \<open>nil\<close> and that node is not
  behind the tail.
\<close>

definition in_enqueue :: "'a clq \<Rightarrow> nat \<Rightarrow> 'a \<Rightarrow> 'a clq \<Rightarrow> bool" where
  "in_enqueue s0 t v s =
     (case threads s t of
        Enq0 w \<Rightarrow> w = v \<and> grown_without t (linked s0) (linked s)
      | Enq1 a \<Rightarrow> holds s a v \<and> grown_without t (linked s0) (linked s)
      | Enq2 a tp \<Rightarrow> holds s a v \<and> grown_without t (linked s0) (linked s)
      | Enq3 a tp \<Rightarrow> holds s a v \<and> grown_without t (linked s0) (linked s)
      | Enq4 a tp \<Rightarrow> holds s a v \<and> grown_once t a (linked s0) (linked s)
      | Done r \<Rightarrow>
          r = EnqueueRet None \<and>
          (\<exists>a. holds s a v \<and> grown_once t a (linked s0) (linked s) \<and>
               a \<in> set (take (tail_idx s) (map snd (linked s))))
      | _ \<Rightarrow> False)"

text \<open>
  The same for a call of \<open>Dequeue\<close>: until it returns it has removed nothing; when it has
  returned \<open>ErrEmptyQueue\<close> it has removed nothing, and when it has returned a value it has
  removed one node, which carries that value.
\<close>

definition in_dequeue :: "'a clq \<Rightarrow> nat \<Rightarrow> 'a clq \<Rightarrow> bool" where
  "in_dequeue s0 t s =
     (case threads s t of
        Deq1 \<Rightarrow> grown_without t (removed s0) (removed s)
      | Deq2 hp \<Rightarrow> grown_without t (removed s0) (removed s)
      | Deq3 hp \<Rightarrow> grown_without t (removed s0) (removed s)
      | Deq4 hp hn \<Rightarrow> grown_without t (removed s0) (removed s)
      | Done r \<Rightarrow>
          r = DequeueRet (Inl ErrEmptyQueue) \<and> grown_without t (removed s0) (removed s) \<or>
          (\<exists>a. r = DequeueRet (Inr (val (nodes s ! a))) \<and> a < length (nodes s) \<and>
               grown_once t a (removed s0) (removed s))
      | _ \<Rightarrow> False)"


text \<open>
  \<open>n\<close> calls of \<open>Dequeue\<close> by goroutine \<open>t\<close>, each running alone for four steps and then
  becoming idle.
\<close>

definition drain :: "nat \<Rightarrow> nat \<Rightarrow> 'a action list" where
  "drain t n =
     concat (replicate n [CallDequeue t, Step t, Step t, Step t, Step t, Finish t])"


definition clq_race :: "int clq" where
  "clq_race =
     run [CallEnqueue 0 5, CallEnqueue 1 6, Step 0, Step 1, Step 1, Step 0, Step 1, Step 0,
          Step 1, Step 0, Step 1, Step 0, Step 0, Step 0, Step 0, Finish 0, Finish 1,
          CallDequeue 2, Step 2, Step 2, Step 2, Step 2, Finish 2]
       (NewConcurrentLinkedQueue 0)"

text \<open>
  Goroutine 0 has enqueued 5; goroutine 1 has linked its node for 6 and has not yet
  swung the tail.
\<close>

definition clq_lagging :: "int clq" where
  "clq_lagging =
     run [CallEnqueue 0 5, Step 0, Step 0, Step 0, Step 0, Step 0, Finish 0,
          CallEnqueue 1 6, Step 1, Step 1, Step 1, Step 1]
       (NewConcurrentLinkedQueue 0)"

text \<open>Goroutine 0 has enqueued 7 and then 9, alone.\<close>

definition clq_two :: "int clq" where
  "clq_two =
     run [CallEnqueue 0 7, Step 0, Step 0, Step 0, Step 0, Step 0, Finish 0,
          CallEnqueue 0 9, Step 0, Step 0, Step 0, Step 0, Step 0, Finish 0]
       (NewConcurrentLinkedQueue 0)"

text \<open>
  In the last state goroutine 0 calls \<open>Enqueue(9)\<close> and has allocated its node: it is at
  the head of its loop.
\<close>

definition clq_spin :: "int clq" where
  "clq_spin = run [CallEnqueue 0 9, Step 0] clq_lagging"
section \<open>Properties of the shrink decision\<close>

lemma f32_exp_bound: "n div 2 ^ f32_exp n < 2 ^ 24"
proof (induction n rule: f32_exp.induct)
  case (1 n)
  show ?case
  proof (cases "n < 2 ^ 24")
    case True
    then show ?thesis by (simp add: f32_exp.simps[of n])
  next
    case False
    with 1 have "n div 2 div 2 ^ f32_exp (n div 2) < 2 ^ 24" by simp
    with False show ?thesis by (simp add: f32_exp.simps[of n] div_mult2_eq)
  qed
qed

lemma f32_exp_lower: "0 < f32_exp n \<Longrightarrow> 2 ^ 23 \<le> n div 2 ^ f32_exp n"
proof (induction n rule: f32_exp.induct)
  case (1 n)
  show ?case
  proof (cases "n < 2 ^ 24")
    case True
    with 1(2) show ?thesis by (simp add: f32_exp.simps[of n])
  next
    case False
    show ?thesis
    proof (cases "0 < f32_exp (n div 2)")
      case True
      with 1(1) False have "2 ^ 23 \<le> n div 2 div 2 ^ f32_exp (n div 2)" by simp
      with False show ?thesis by (simp add: f32_exp.simps[of n] div_mult2_eq)
    next
      case F2: False
      then have e: "f32_exp n = 1" using False by (simp add: f32_exp.simps[of n])
      from False show ?thesis unfolding e by simp
    qed
  qed
qed

lemma float32_round_exact: "n < 2 ^ 24 \<Longrightarrow> float32_round n = n"
  by (simp add: float32_round_def f32_exp.simps[of n])

lemma float32_round_error:
  "2 ^ 24 * float32_round n \<le> 2 ^ 24 * n + n \<and> 2 ^ 24 * n \<le> 2 ^ 24 * float32_round n + n"
proof (cases "f32_exp n = 0")
  case True
  then show ?thesis by (simp add: float32_round_def)
next
  case False
  define e where "e = f32_exp n"
  define q where "q = n div 2 ^ e"
  define r where "r = n mod 2 ^ e"
  define u :: nat where "u = 2 ^ (e - 1)"
  from False have epos: "0 < e" by (simp add: e_def)
  then have pe: "(2::nat) ^ e = 2 * u" by (cases e) (simp_all add: u_def)
  define w where "w = q * (2 * u)"
  have p24: "(2::nat) ^ 24 = 16777216" by simp
  have n: "n = w + r" using div_mult_mod_eq[of n "2 ^ e"] by (simp add: q_def r_def pe w_def)
  have r: "r < 2 * u" by (simp add: r_def pe[symmetric])
  have "2 ^ 23 \<le> q" using f32_exp_lower[of n] epos by (simp add: q_def e_def)
  then have "2 ^ 23 * (2 * u) \<le> q * (2 * u)" by (rule mult_right_mono) simp
  then have big: "2 ^ 24 * u \<le> w" by (simp add: w_def)
  have fr: "float32_round n = (if 2 * u < 2 * r \<or> (2 * r = 2 * u \<and> odd q) then w + 2 * u else w)"
    unfolding float32_round_def Let_def e_def[symmetric] q_def[symmetric] r_def[symmetric]
    unfolding pe w_def by simp
  show ?thesis
  proof (cases "2 * u < 2 * r \<or> (2 * r = 2 * u \<and> odd q)")
    case True
    then have f: "float32_round n = w + 2 * u" and ur: "u \<le> r" by (auto simp: fr)
    show ?thesis unfolding f using n r ur big by simp
  next
    case F: False
    then have f: "float32_round n = w" and ur: "r \<le> u" by (auto simp: fr)
    show ?thesis unfolding f using n r ur big by simp
  qed
qed

lemma mul_0625_f32_bounds:
  assumes "0 < c"
  shows "1048576 * \<bar>8 * mul_0625_f32 c - 5 * c\<bar> \<le> c + 8388608"
proof -
  obtain k where k: "c = int k" using assms by (metis nat_0_le less_imp_le)
  define x where "x = float32_round k"
  define y where "y = float32_round (5 * x)"
  define m where "m = y div 8"
  have n: "mul_0625_f32 (int k) = int m" by (simp add: mul_0625_f32_def m_def y_def x_def)
  have x: "16777216 * x \<le> 16777216 * k + k" "16777216 * k \<le> 16777216 * x + k"
    using float32_round_error[of k] by (simp_all add: x_def)
  have y: "16777216 * y \<le> 16777216 * (5 * x) + 5 * x" "16777216 * (5 * x) \<le> 16777216 * y + 5 * x"
    using float32_round_error[of "5 * x"] by (simp_all add: y_def)
  have m: "8 * m \<le> y" "y < 8 * m + 8" by (simp_all add: m_def)
  have "1048576 * (8 * int m - 5 * int k) \<le> int k + 8388608"
    using x y m by simp
  moreover have "1048576 * (5 * int k - 8 * int m) \<le> int k + 8388608"
    using x y m by simp
  ultimately show ?thesis unfolding k n by (simp add: abs_if)
qed


lemma go_div_pos: "0 \<le> a \<Longrightarrow> 0 < b \<Longrightarrow> go_div a b = Inr (a div b)"
  by (cases "a = 0") (simp_all add: go_div_def)

lemma le_div_imp_mult_le:
  fixes c l k :: int
  assumes "0 < l" and "0 \<le> k" and "k \<le> c div l"
  shows "k * l \<le> c"
proof -
  have "k * l \<le> (c div l) * l" using assms by (simp add: mult_right_mono)
  also have "\<dots> \<le> c"
  proof -
    have e: "l * (c div l) + c mod l = c" by (rule mult_div_mod_eq)
    have m: "0 \<le> c mod l" using assms(1) by simp
    have "(c div l) * l = l * (c div l)" by (rule mult.commute)
    with e m show ?thesis by linarith
  qed
  finally show ?thesis .
qed

lemma calCapacity_small: "c \<le> 64 \<Longrightarrow> calCapacity c l = Inr (c, False)"
  by (simp add: calCapacity_def)

lemma calCapacity_large:
  "2048 < c \<Longrightarrow> 0 < l \<Longrightarrow>
   calCapacity c l = (if 2 \<le> c div l then Inr (mul_0625_f32 c, True) else Inr (c, False))"
  by (simp add: calCapacity_def go_div_pos)

lemma calCapacity_medium:
  "64 < c \<Longrightarrow> c \<le> 2048 \<Longrightarrow> 0 < l \<Longrightarrow>
   calCapacity c l = (if 4 \<le> c div l then Inr (c div 2, True) else Inr (c, False))"
  by (simp add: calCapacity_def go_div_pos)

lemma calCapacity_zero_length: "64 < c \<Longrightarrow> calCapacity c 0 = Inl DivideByZero"
  by (simp add: calCapacity_def go_div_def)

text \<open>
  Claim C3. The shrink decision \<open>calCapacity c l\<close> depends on the capacity \<open>c\<close> and the
  length \<open>l\<close> only, and for \<open>1 \<le> l \<le> c\<close> it returns (without a panic) a capacity \<open>n\<close>
  with \<open>l \<le> n \<le> c\<close>. A capacity of at most 64 is kept. For \<open>c > 2048\<close> and \<open>c/l \<ge> 2\<close> the
  result is the \<open>float32\<close> product \<open>0.625 * c\<close>, which is \<open>5c/8\<close> up to the rounding of
  \<open>float32\<close>: \<open>|8n - 5c| \<le> c / 2^20 + 8\<close>. For \<open>64 < c \<le> 2048\<close> and \<open>c/l \<ge> 4\<close> the result
  is \<open>c/2\<close>.
\<close>

theorem calCapacity_conservative:
  assumes "1 \<le> l" and "l \<le> c"
  shows "\<exists>n changed. calCapacity c l = Inr (n, changed) \<and> l \<le> n \<and> n \<le> c
           \<and> (c \<le> 64 \<longrightarrow> n = c \<and> \<not> changed)
           \<and> (2048 < c \<and> 2 \<le> c div l \<longrightarrow>
                  changed \<and> 2 ^ 20 * \<bar>8 * n - 5 * c\<bar> \<le> c + 2 ^ 23)
           \<and> (64 < c \<and> c \<le> 2048 \<and> 4 \<le> c div l \<longrightarrow> changed \<and> n = c div 2)"
proof -
  have lpos: "0 < l" using assms by simp
  consider (small) "c \<le> 64" | (medium) "64 < c" "c \<le> 2048" | (large) "2048 < c"
    by linarith
  then show ?thesis
  proof cases
    case small
    have "calCapacity c l = Inr (c, False)" using small by (rule calCapacity_small)
    with assms small show ?thesis by (intro exI[of _ c] exI[of _ False]) simp
  next
    case medium
    show ?thesis
    proof (cases "4 \<le> c div l")
      case True
      from le_div_imp_mult_le[OF lpos _ True] have "4 * l \<le> c" by simp
      then have l2: "l \<le> c div 2" using assms by linarith
      have "calCapacity c l = Inr (c div 2, True)"
        using medium lpos True by (simp add: calCapacity_medium)
      with medium l2 show ?thesis by (intro exI[of _ "c div 2"] exI[of _ True]) simp
    next
      case False
      have "calCapacity c l = Inr (c, False)"
        using medium lpos False by (simp add: calCapacity_medium)
      with medium False assms show ?thesis by (intro exI[of _ c] exI[of _ False]) simp
    qed
  next
    case large
    show ?thesis
    proof (cases "2 \<le> c div l")
      case True
      from le_div_imp_mult_le[OF lpos _ True] have l2: "2 * l \<le> c" by simp
      have b: "1048576 * \<bar>8 * mul_0625_f32 c - 5 * c\<bar> \<le> c + 8388608"
        using mul_0625_f32_bounds[of c] large by simp
      have b1: "1048576 * (8 * mul_0625_f32 c - 5 * c) \<le> c + 8388608"
        and b2: "1048576 * (5 * c - 8 * mul_0625_f32 c) \<le> c + 8388608"
        using b by (simp_all add: abs_if split: if_splits)
      have ln: "l \<le> mul_0625_f32 c" using b2 l2 large by simp
      have nc: "mul_0625_f32 c \<le> c" using b1 large by simp
      have eq: "calCapacity c l = Inr (mul_0625_f32 c, True)"
        using large True lpos by (simp add: calCapacity_large)
      have "(2::int) ^ 20 = 1048576" "(2::int) ^ 23 = 8388608" by simp_all
      then have b': "2 ^ 20 * \<bar>8 * mul_0625_f32 c - 5 * c\<bar> \<le> c + 2 ^ 23"
        using b by (simp only:)
      from eq ln nc b' large show ?thesis
        by (intro exI[of _ "mul_0625_f32 c"] exI[of _ True]) (simp only: simp_thms not_le not_less, simp)
    next
      case False
      have "calCapacity c l = Inr (c, False)"
        using large lpos False by (simp add: calCapacity_large)
      with large False assms show ?thesis by (intro exI[of _ c] exI[of _ False]) simp
    qed
  qed
qed

text \<open>The theorem at \<open>c = 3000\<close>, \<open>l = 100\<close>, where the capacity shrinks to 1875.\<close>

theorem calCapacity_conservative_witness:
  "(1::int) \<le> 100 \<and> (100::int) \<le> 3000 \<and>
   calCapacity 3000 100 = Inr (1875, True) \<and>
   (\<exists>n changed. calCapacity 3000 100 = Inr (n, changed) \<and> 100 \<le> n \<and> n \<le> 3000)"
proof -
  have h: "(1::int) \<le> 100" "(100::int) \<le> 3000" by simp_all
  from calCapacity_conservative [OF h] obtain n changed
    where "calCapacity 3000 100 = Inr (n, changed)" "100 \<le> n" "n \<le> 3000" by blast
  moreover have "calCapacity 3000 100 = Inr (1875, True)"
    by (simp add: calCapacity_def go_div_def mul_0625_f32_def float32_round_def f32_exp.simps)
  ultimately show ?thesis using h by blast
qed

section \<open>The heap invariant is preserved\<close>

lemma cmp_flip_lt: "total_order_cmp cmp \<Longrightarrow> cmp a b < 0 \<Longrightarrow> 0 \<le> cmp b a"
  unfolding total_order_cmp_def by (metis less_imp_le)

lemma cmp_flip_ge: "total_order_cmp cmp \<Longrightarrow> 0 \<le> cmp a b \<Longrightarrow> cmp b a \<le> 0"
  unfolding total_order_cmp_def by (metis not_less)

lemma cmp_flip_le: "total_order_cmp cmp \<Longrightarrow> cmp a b \<le> 0 \<Longrightarrow> 0 \<le> cmp b a"
  unfolding total_order_cmp_def by (metis not_less)

lemma cmp_refl: "total_order_cmp cmp \<Longrightarrow> cmp a a = 0"
  unfolding total_order_cmp_def by (metis less_asym' less_linear)

lemma cmp_trans_ge:
  assumes "total_order_cmp cmp" and "0 \<le> cmp a b" and "0 \<le> cmp b c"
  shows "0 \<le> cmp a c"
proof -
  have "cmp c b \<le> 0" "cmp b a \<le> 0" using assms by (simp_all add: cmp_flip_ge)
  then have "cmp c a \<le> 0" using assms(1) unfolding total_order_cmp_def by blast
  then show ?thesis using assms(1) by (rule cmp_flip_le[rotated])
qed

lemma cmp_lt_ge:
  assumes "total_order_cmp cmp" and "cmp x p < 0" and "0 \<le> cmp s p"
  shows "0 \<le> cmp s x"
  using assms cmp_trans_ge[of cmp s p x] cmp_flip_lt[of cmp x p] by simp

lemma int_cmp_total: "total_order_cmp int_cmp"
  by (auto simp: total_order_cmp_def int_cmp_def split: if_splits)


lemma siftUp_heap:
  "total_order_cmp cmp \<Longrightarrow> node < length xs \<Longrightarrow> parent = node div 2 \<Longrightarrow>
    (\<forall>i. 2 \<le> i \<longrightarrow> i < length xs \<longrightarrow> i \<noteq> node \<longrightarrow> 0 \<le> cmp (xs ! i) (xs ! (i div 2))) \<Longrightarrow>
    (\<forall>i. 2 \<le> i \<longrightarrow> i < length xs \<longrightarrow> i div 2 = node \<longrightarrow> 2 \<le> node \<longrightarrow>
          0 \<le> cmp (xs ! i) (xs ! (node div 2))) \<Longrightarrow>
    \<exists>ys. siftUp cmp xs node parent = Inr ys \<and> length ys = length xs \<and> heap_prop cmp ys"
proof (induction cmp xs node parent rule: siftUp.induct)
  case (1 cmp xs node parent)
  note to = "1.prems"(1) and I1 = "1.prems"(4) and I2 = "1.prems"(5)
  have par: "parent = node div 2" and nd: "node < length xs" using "1.prems" by simp_all
  show ?case
  proof (cases "parent > 0 \<and> cmp (xs ! node) (xs ! parent) < 0")
    case False
    have stop: "siftUp cmp xs node parent = Inr xs"
      using False nd par by (subst siftUp.simps) (auto simp: less_at_def)
    have "heap_prop cmp xs"
      unfolding heap_prop_def
    proof
      fix i assume i: "i \<in> {2..<length xs}"
      show "0 \<le> cmp (xs ! i) (xs ! (i div 2))"
      proof (cases "i = node")
        case True
        with i par have "parent > 0" by simp
        with False have "\<not> cmp (xs ! node) (xs ! parent) < 0" by simp
        with True par show ?thesis by simp
      next
        case F: False
        with I1 i show ?thesis by simp
      qed
    qed
    with stop show ?thesis by simp
  next
    case True
    then have ppos: "0 < parent" and lt: "cmp (xs ! node) (xs ! parent) < 0" by simp_all
    have n2: "2 \<le> node" and pn: "parent < node" using ppos par by simp_all
    define xs' where "xs' = xs[parent := xs ! node, node := xs ! parent]"
    have len': "length xs' = length xs" by (simp add: xs'_def)
    have nth': "\<And>i. i < length xs \<Longrightarrow>
        xs' ! i = (if i = node then xs ! parent else if i = parent then xs ! node else xs ! i)"
      using pn nd by (simp add: xs'_def nth_list_update)
    have step: "siftUp cmp xs node parent = siftUp cmp xs' parent (parent div 2)"
      using True nd pn by (subst siftUp.simps) (simp add: less_at_def swap_at_def xs'_def)
    have J1: "\<forall>i. 2 \<le> i \<longrightarrow> i < length xs' \<longrightarrow> i \<noteq> parent \<longrightarrow> 0 \<le> cmp (xs' ! i) (xs' ! (i div 2))"
    proof (intro allI impI)
      fix i assume i: "2 \<le> i" "i < length xs'" "i \<noteq> parent"
      then have il: "i < length xs" and i2l: "i div 2 < length xs" by (simp_all add: len')
      consider (a) "i = node" | (b) "i \<noteq> node" "i div 2 = parent" | (c) "i \<noteq> node" "i div 2 = node"
        | (d) "i \<noteq> node" "i div 2 \<noteq> parent" "i div 2 \<noteq> node" by blast
      then show "0 \<le> cmp (xs' ! i) (xs' ! (i div 2))"
      proof cases
        case a
        then have "xs' ! i = xs ! parent" "xs' ! (i div 2) = xs ! node"
          using nth'[OF il] nth'[OF i2l] par pn by simp_all
        then show ?thesis using cmp_flip_lt[OF to lt] by simp
      next
        case b
        then have e: "xs' ! i = xs ! i" "xs' ! (i div 2) = xs ! node"
          using nth'[OF il] nth'[OF i2l] i pn by simp_all
        have "0 \<le> cmp (xs ! i) (xs ! parent)" using I1 i il b by auto
        from cmp_lt_ge[OF to lt this] show ?thesis using e by simp
      next
        case c
        then have e: "xs' ! i = xs ! i" "xs' ! (i div 2) = xs ! parent"
          using nth'[OF il] nth'[OF i2l] i pn by simp_all
        have "0 \<le> cmp (xs ! i) (xs ! (node div 2))" using I2 i il c n2 by auto
        then show ?thesis using e par by simp
      next
        case d
        then have e: "xs' ! i = xs ! i" "xs' ! (i div 2) = xs ! (i div 2)"
          using nth'[OF il] nth'[OF i2l] i by simp_all
        have "0 \<le> cmp (xs ! i) (xs ! (i div 2))" using I1 i il d by auto
        then show ?thesis using e by simp
      qed
    qed
    have J2: "\<forall>i. 2 \<le> i \<longrightarrow> i < length xs' \<longrightarrow> i div 2 = parent \<longrightarrow> 2 \<le> parent \<longrightarrow>
          0 \<le> cmp (xs' ! i) (xs' ! (parent div 2))"
    proof (intro allI impI)
      fix i assume i: "2 \<le> i" "i < length xs'" "i div 2 = parent" "2 \<le> parent"
      then have il: "i < length xs" and ppl: "parent div 2 < length xs" and pl: "parent < length xs"
        using nd pn by (simp_all add: len')
      have "parent div 2 < parent" using i by simp
      then have gp: "xs' ! (parent div 2) = xs ! (parent div 2)"
        using nth'[OF ppl] pn by simp
      have pgp: "0 \<le> cmp (xs ! parent) (xs ! (parent div 2))"
        using I1 i pl pn by auto
      show "0 \<le> cmp (xs' ! i) (xs' ! (parent div 2))"
      proof (cases "i = node")
        case True
        then have "xs' ! i = xs ! parent" using nth'[OF il] by simp
        with pgp gp show ?thesis by simp
      next
        case False
        then have e: "xs' ! i = xs ! i" using nth'[OF il] i by auto
        have "0 \<le> cmp (xs ! i) (xs ! parent)" using I1 i il False by auto
        from cmp_trans_ge[OF to this pgp] show ?thesis using e gp by simp
      qed
    qed
    have lf: "less_at cmp xs node parent = Inr True" using lt nd pn by (simp add: less_at_def)
    have sf: "swap_at xs parent node = Inr xs'" using nd pn by (simp add: swap_at_def xs'_def)
    have pl: "parent < length xs'" using nd pn by (simp add: len')
    note "1.IH"[OF ppos lf TrueI sf to pl refl J1 J2]
    with step len' show ?thesis by simp
  qed
qed


lemma heapify_heap:
  "total_order_cmp cmp \<Longrightarrow> n = length xs - 1 \<Longrightarrow> 1 \<le> i \<Longrightarrow>
    (\<forall>j. 2 \<le> j \<longrightarrow> j < length xs \<longrightarrow> j div 2 \<noteq> i \<longrightarrow> 0 \<le> cmp (xs ! j) (xs ! (j div 2))) \<Longrightarrow>
    (\<forall>j. 2 \<le> j \<longrightarrow> j < length xs \<longrightarrow> j div 2 = i \<longrightarrow> 2 \<le> i \<longrightarrow>
          0 \<le> cmp (xs ! j) (xs ! (i div 2))) \<Longrightarrow>
    \<exists>ys. heapify cmp xs n i = Inr ys \<and> length ys = length xs \<and> heap_prop cmp ys"
proof (induction cmp xs n i rule: heapify.induct)
  case (1 cmp xs n i)
  note to = "1.prems"(1) and n = "1.prems"(2) and ipos = "1.prems"(3)
    and I1 = "1.prems"(4) and I2 = "1.prems"(5)
  define l where "l = i * 2"
  define r where "r = i * 2 + 1"
  define b1 where "b1 = (l \<le> n \<and> cmp (xs ! l) (xs ! i) < 0)"
  define m1 where "m1 = (if b1 then i * 2 else i)"
  define b2 where "b2 = (r \<le> n \<and> cmp (xs ! r) (xs ! m1) < 0)"
  define m where "m = (if b2 then i * 2 + 1 else m1)"
  have inl: "l \<le> n \<Longrightarrow> l < length xs \<and> i < length xs" using n ipos by (auto simp: l_def)
  have inr: "r \<le> n \<Longrightarrow> r < length xs \<and> l < length xs \<and> i < length xs"
    using n ipos by (auto simp: r_def l_def)
  have m1r: "r \<le> n \<Longrightarrow> m1 < length xs" using inr by (simp add: m1_def l_def)
  have e1: "(if i * 2 \<le> n then less_at cmp xs (i * 2) i else Inr False) = Inr b1"
    using inl by (auto simp: b1_def less_at_def l_def)
  have e2: "(if i * 2 + 1 \<le> n then less_at cmp xs (i * 2 + 1) m1 else Inr False) = Inr b2"
    using inr m1r by (auto simp: b2_def less_at_def r_def)
  have unf: "heapify cmp xs n i =
      (if m = i then Inr xs
       else case swap_at xs i m of Inl e \<Rightarrow> Inl e | Inr d \<Rightarrow> heapify cmp d n m)"
    by (subst heapify.simps) (simp only: e1 e2 Let_def m1_def[symmetric] m_def[symmetric] sum.case)
  have child: "\<And>j. j div 2 = i \<longleftrightarrow> j = l \<or> j = r" by (auto simp: l_def r_def)
  show ?case
  proof (cases "m = i")
    case True
    then have nb1: "\<not> b1" and nb2: "\<not> b2" using ipos by (auto simp: m_def m1_def split: if_splits)
    then have m1i: "m1 = i" by (simp add: m1_def)
    have "heap_prop cmp xs"
      unfolding heap_prop_def
    proof
      fix j assume j: "j \<in> {2..<length xs}"
      then have jn: "j \<le> n" using n by auto
      show "0 \<le> cmp (xs ! j) (xs ! (j div 2))"
      proof (cases "j div 2 = i")
        case False
        with I1 j show ?thesis by simp
      next
        case T: True
        then consider "j = l" | "j = r" using child by blast
        then show ?thesis
        proof cases
          case 1
          with nb1 jn have "\<not> cmp (xs ! l) (xs ! i) < 0" by (simp add: b1_def)
          with 1 T show ?thesis by simp
        next
          case 2
          with nb2 jn m1i have "\<not> cmp (xs ! r) (xs ! i) < 0" by (simp add: b2_def)
          with 2 T show ?thesis by simp
        qed
      qed
    qed
    with unf True show ?thesis by simp
  next
    case False
    have mc: "m = l \<or> m = r" using False by (auto simp: m_def m1_def l_def r_def split: if_splits)
    have mn: "m \<le> n" using False by (auto simp: m_def m1_def b1_def b2_def l_def r_def split: if_splits)
    have im: "i < m" using mc ipos by (auto simp: l_def r_def)
    have ml: "m < length xs" and il: "i < length xs" using mn mc inl inr
      by (auto simp: l_def r_def)
    have mdiv: "m div 2 = i" using mc child by blast
    define xs' where "xs' = xs[i := xs ! m, m := xs ! i]"
    have len': "length xs' = length xs" by (simp add: xs'_def)
    have nth': "\<And>j. j < length xs \<Longrightarrow>
        xs' ! j = (if j = m then xs ! i else if j = i then xs ! m else xs ! j)"
      using im il ml by (simp add: xs'_def nth_list_update)
    have sf: "swap_at xs i m = Inr xs'" using il ml by (simp add: swap_at_def xs'_def)
    text \<open>the chosen child precedes the node and does not follow its sibling\<close>
    have m_i: "0 \<le> cmp (xs ! i) (xs ! m)"
    proof (cases b2)
      case True
      then have r: "m = r" "cmp (xs ! r) (xs ! m1) < 0" by (simp_all add: m_def b2_def r_def)
      show ?thesis
      proof (cases b1)
        case T1: True
        then have "cmp (xs ! l) (xs ! i) < 0" "m1 = l" by (simp_all add: b1_def m1_def l_def)
        then have "0 \<le> cmp (xs ! i) (xs ! l)" "0 \<le> cmp (xs ! l) (xs ! r)"
          using r cmp_flip_lt[OF to] by auto
        from cmp_trans_ge[OF to this] r show ?thesis by simp
      next
        case F1: False
        then have "m1 = i" by (simp add: m1_def)
        with r cmp_flip_lt[OF to] show ?thesis by auto
      qed
    next
      case F2: False
      then have "m = m1" by (simp add: m_def)
      with False have "b1" "m = l" by (auto simp: m1_def l_def split: if_splits)
      then have "cmp (xs ! l) (xs ! i) < 0" by (simp add: b1_def)
      with \<open>m = l\<close> cmp_flip_lt[OF to] show ?thesis by auto
    qed
    have sib: "\<And>j. j div 2 = i \<Longrightarrow> j \<noteq> m \<Longrightarrow> j < length xs \<Longrightarrow> 0 \<le> cmp (xs ! j) (xs ! m)"
    proof -
      fix j assume j: "j div 2 = i" "j \<noteq> m" "j < length xs"
      then have jn: "j \<le> n" using n by auto
      from j child have jc: "j = l \<or> j = r" by blast
      show "0 \<le> cmp (xs ! j) (xs ! m)"
      proof (cases b2)
        case True
        then have r: "m = r" "cmp (xs ! r) (xs ! m1) < 0" by (simp_all add: m_def b2_def r_def)
        with jc j have jl: "j = l" by simp
        show ?thesis
        proof (cases b1)
          case T1: True
          then have "m1 = l" by (simp add: m1_def l_def)
          with r jl cmp_flip_lt[OF to] show ?thesis by auto
        next
          case F1: False
          then have "m1 = i" "\<not> cmp (xs ! l) (xs ! i) < 0" using jn jl by (simp_all add: m1_def b1_def)
          then have "cmp (xs ! r) (xs ! i) < 0" "0 \<le> cmp (xs ! l) (xs ! i)" using r by simp_all
          from cmp_lt_ge[OF to this] jl r show ?thesis by simp
        qed
      next
        case F2: False
        then have "m = m1" by (simp add: m_def)
        with False have "b1" "m = l" by (auto simp: m1_def l_def split: if_splits)
        with jc j have jr: "j = r" by simp
        have "m1 = l" using \<open>b1\<close> by (simp add: m1_def l_def)
        with F2 jr jn have "\<not> cmp (xs ! r) (xs ! l) < 0" by (simp add: b2_def)
        with jr \<open>m = l\<close> show ?thesis by simp
      qed
    qed
    have J1: "\<forall>j. 2 \<le> j \<longrightarrow> j < length xs' \<longrightarrow> j div 2 \<noteq> m \<longrightarrow> 0 \<le> cmp (xs' ! j) (xs' ! (j div 2))"
    proof (intro allI impI)
      fix j assume j: "2 \<le> j" "j < length xs'" "j div 2 \<noteq> m"
      then have jl: "j < length xs" and j2l: "j div 2 < length xs" by (simp_all add: len')
      consider (a) "j = m" | (b) "j \<noteq> m" "j div 2 = i" | (c) "j = i"
        | (d) "j \<noteq> m" "j \<noteq> i" "j div 2 \<noteq> i" by blast
      then show "0 \<le> cmp (xs' ! j) (xs' ! (j div 2))"
      proof cases
        case a
        then have "xs' ! j = xs ! i" "xs' ! (j div 2) = xs ! m"
          using nth'[OF jl] nth'[OF j2l] mdiv im by simp_all
        with m_i show ?thesis by simp
      next
        case b
        then have "j \<noteq> i" using j by auto
        with b have e: "xs' ! j = xs ! j" "xs' ! (j div 2) = xs ! m"
          using nth'[OF jl] nth'[OF j2l] im by simp_all
        from sib[OF b(2) b(1) jl] e show ?thesis by simp
      next
        case c
        then have i2: "2 \<le> i" using j by simp
        then have ne: "i div 2 \<noteq> i" "i div 2 \<noteq> m" using im by auto
        have e: "xs' ! j = xs ! m" "xs' ! (j div 2) = xs ! (i div 2)"
          using nth'[OF jl] nth'[OF j2l] im c ne by simp_all
        have "0 \<le> cmp (xs ! m) (xs ! (i div 2))" using I2 mdiv ml im i2 by auto
        with e show ?thesis by simp
      next
        case d
        then have e: "xs' ! j = xs ! j" "xs' ! (j div 2) = xs ! (j div 2)"
          using nth'[OF jl] nth'[OF j2l] j by simp_all
        have "0 \<le> cmp (xs ! j) (xs ! (j div 2))" using I1 j jl d by auto
        with e show ?thesis by simp
      qed
    qed
    have J2: "\<forall>j. 2 \<le> j \<longrightarrow> j < length xs' \<longrightarrow> j div 2 = m \<longrightarrow> 2 \<le> m \<longrightarrow>
          0 \<le> cmp (xs' ! j) (xs' ! (m div 2))"
    proof (intro allI impI)
      fix j assume j: "2 \<le> j" "j < length xs'" "j div 2 = m" "2 \<le> m"
      then have jl: "j < length xs" by (simp add: len')
      have "m < j" using j by auto
      then have e: "xs' ! j = xs ! j" "xs' ! (m div 2) = xs ! m"
        using nth'[OF jl] nth'[OF il] mdiv im by simp_all
      have "0 \<le> cmp (xs ! j) (xs ! (j div 2))" using I1 j jl im by auto
      with e j show "0 \<le> cmp (xs' ! j) (xs' ! (m div 2))" by simp
    qed
    have n': "n = length xs' - 1" using n by (simp add: len')
    have mpos: "1 \<le> m" using im by simp
    note "1.IH"[OF e1 m1_def e2 m_def False sf to n' mpos J1 J2]
    with unf False sf len' show ?thesis by simp
  qed
qed

section \<open>The queue operations\<close>

lemma heap_prop_short: "length xs \<le> 2 \<Longrightarrow> heap_prop cmp xs"
  by (simp add: heap_prop_def)

lemma NewPriorityQueue_Inr:
  assumes "NewPriorityQueue lim z c cmp = Inr p"
  shows "compare p = cmp \<and> elems (data p) = [z] \<and> capacity p = (if c < 1 then 0 else c)"
  using assms
  by (auto simp: NewPriorityQueue_def make_slice_def Let_def split: if_splits)

lemma NewPriorityQueue_ok:
  assumes "c < 2 ^ 63 - 1" and "64 \<le> lim" and "c < lim"
  shows "\<exists>p. NewPriorityQueue lim z c cmp = Inr p"
proof (cases "c < 1")
  case True
  then show ?thesis using assms by (simp add: NewPriorityQueue_def make_slice_def)
next
  case False
  then have "wrap64 (c + 1) = c + 1" using assms by (simp add: wrap64_def)
  with False show ?thesis using assms by (simp add: NewPriorityQueue_def make_slice_def)
qed

lemma NewPriorityQueue_limit:
  assumes "1 \<le> c" and "c < 2 ^ 63 - 1" and "lim \<le> c"
  shows "NewPriorityQueue lim z c cmp = Inl MakeSliceOutOfRange"
proof -
  have "wrap64 (c + 1) = c + 1" using assms by (simp add: wrap64_def)
  then show ?thesis using assms by (simp add: NewPriorityQueue_def make_slice_def)
qed

lemma Enqueue_full: "isFull p \<Longrightarrow> Enqueue grow p t = Inr (Some ErrOutOfCapacity, p)"
  by (simp add: Enqueue_def)

lemma Enqueue_heap:
  assumes to: "total_order_cmp (compare p)" and h: "min_heap p" and nf: "\<not> isFull p"
  shows "\<exists>p'. Enqueue grow p t = Inr (None, p') \<and> compare p' = compare p \<and>
           capacity p' = capacity p \<and>
           length (elems (data p')) = Suc (length (elems (data p))) \<and> min_heap p'"
proof -
  define xs where "xs = elems (data p) @ [t]"
  define d where "d = append_go grow (data p) [t]"
  have ed: "elems d = xs" by (simp add: d_def append_go_def xs_def Let_def)
  define node where "node = length xs - 1"
  have nl: "node < length xs" by (simp add: node_def xs_def)
  have old: "length (elems (data p)) = node" by (simp add: node_def xs_def)
  have I1: "\<forall>i. 2 \<le> i \<longrightarrow> i < length xs \<longrightarrow> i \<noteq> node \<longrightarrow>
      0 \<le> compare p (xs ! i) (xs ! (i div 2))"
  proof (intro allI impI)
    fix i assume i: "2 \<le> i" "i < length xs" "i \<noteq> node"
    then have il: "i < length (elems (data p))" by (simp add: node_def xs_def)
    moreover from il have "i div 2 < length (elems (data p))" by simp
    ultimately have "xs ! i = elems (data p) ! i" "xs ! (i div 2) = elems (data p) ! (i div 2)"
      by (simp_all add: xs_def nth_append)
    with h i il show "0 \<le> compare p (xs ! i) (xs ! (i div 2))"
      by (simp add: min_heap_def heap_prop_def)
  qed
  have I2: "\<forall>i. 2 \<le> i \<longrightarrow> i < length xs \<longrightarrow> i div 2 = node \<longrightarrow> 2 \<le> node \<longrightarrow>
      0 \<le> compare p (xs ! i) (xs ! (node div 2))"
    using nl by (auto simp: node_def)
  from siftUp_heap[OF to nl refl I1 I2] obtain ys
    where ys: "siftUp (compare p) xs node (node div 2) = Inr ys" "length ys = length xs"
      "heap_prop (compare p) ys" by blast
  have "Enqueue grow p t = Inr (None, p\<lparr>data := d\<lparr>elems := ys\<rparr>\<rparr>)"
    using nf ys(1) by (simp add: Enqueue_def Let_def d_def[symmetric] ed node_def)
  moreover have "length ys = Suc (length (elems (data p)))" using ys(2) by (simp add: xs_def)
  ultimately show ?thesis using ys(3) by (simp add: min_heap_def)
qed

lemma removeRoot_ok:
  assumes "\<not> isEmpty p"
  shows "removeRoot p = Inr (elems (data p) ! 1,
           p\<lparr>data := (data p)\<lparr>elems := butlast ((elems (data p))[1 := last (elems (data p))])\<rparr>\<rparr>)"
proof -
  have l: "2 \<le> length (elems (data p))" using assms by (simp add: isEmpty_def)
  then have ne: "elems (data p) \<noteq> []" by auto
  have "elems (data p) ! (length (elems (data p)) - 1) = last (elems (data p))"
    using ne by (simp add: last_conv_nth)
  with l show ?thesis
    by (simp add: removeRoot_def index_def assign_def Let_def butlast_conv_take)
qed

lemma calCapacity_no_panic:
  assumes "0 < l" and "0 \<le> c"
  shows "\<exists>n changed. calCapacity c l = Inr (n, changed) \<and> 0 \<le> n"
proof -
  consider (small) "c \<le> 64" | (medium) "64 < c" "c \<le> 2048" | (large) "2048 < c"
    by linarith
  then show ?thesis
  proof cases
    case small
    with assms show ?thesis by (auto simp: calCapacity_small)
  next
    case medium
    with assms show ?thesis by (auto simp: calCapacity_medium)
  next
    case large
    with assms show ?thesis by (auto simp: calCapacity_large mul_0625_f32_def)
  qed
qed

lemma Shrink_elems:
  assumes "elems src \<noteq> []"
  shows "\<exists>d. Shrink grow src = Inr d \<and> elems d = elems src"
proof -
  have "0 < int (length (elems src))" using assms by simp
  from calCapacity_no_panic[OF this, of "int (cap src)"] obtain n changed
    where c: "calCapacity (int (cap src)) (int (length (elems src))) = Inr (n, changed)" "0 \<le> n"
    by auto
  then show ?thesis
    by (simp add: Shrink_def make_empty_def append_go_def Let_def)
qed

lemma Shrink_zero_length:
  assumes "elems src = []" and "64 < cap src"
  shows "Shrink grow src = Inl DivideByZero"
  using assms by (simp add: Shrink_def calCapacity_zero_length)

lemma shrinkIfNecessary_elems:
  assumes "elems (data p) \<noteq> []"
  shows "\<exists>p'. shrinkIfNecessary grow p = Inr p' \<and> elems (data p') = elems (data p)
            \<and> compare p' = compare p \<and> capacity p' = capacity p"
proof (cases "IsBoundless p")
  case True
  from Shrink_elems[OF assms, of grow] obtain d where "Shrink grow (data p) = Inr d" "elems d = elems (data p)"
    by blast
  with True show ?thesis by (simp add: shrinkIfNecessary_def)
next
  case False
  then show ?thesis by (simp add: shrinkIfNecessary_def)
qed

lemma Dequeue_empty: "isEmpty p \<Longrightarrow> Dequeue grow p = Inr (Inl ErrEmptyQueue, p)"
  by (simp add: Dequeue_def)

lemma Dequeue_heap:
  assumes to: "total_order_cmp (compare p)" and h: "min_heap p" and ne: "\<not> isEmpty p"
  shows "\<exists>p'. Dequeue grow p = Inr (Inr (elems (data p) ! 1), p') \<and> compare p' = compare p \<and>
           capacity p' = capacity p \<and>
           Suc (length (elems (data p'))) = length (elems (data p)) \<and> min_heap p'"
proof -
  define xs where "xs = elems (data p)"
  define xs1 where "xs1 = butlast (xs[1 := last xs])"
  define p1 where "p1 = p\<lparr>data := (data p)\<lparr>elems := xs1\<rparr>\<rparr>"
  have l: "2 \<le> length xs" using ne by (simp add: isEmpty_def xs_def)
  have rr: "removeRoot p = Inr (xs ! 1, p1)"
    using removeRoot_ok[OF ne] by (simp add: p1_def xs1_def xs_def)
  have len1: "Suc (length xs1) = length xs" using l by (simp add: xs1_def)
  then have "elems (data p1) \<noteq> []" using l by (auto simp: p1_def)
  from shrinkIfNecessary_elems[OF this, of grow] obtain p2
    where p2: "shrinkIfNecessary grow p1 = Inr p2" "elems (data p2) = xs1"
      "compare p2 = compare p" "capacity p2 = capacity p"
    by (auto simp: p1_def)
  have nth1: "\<And>j. 2 \<le> j \<Longrightarrow> j < length xs1 \<Longrightarrow> xs1 ! j = xs ! j"
    using len1 by (simp add: xs1_def nth_butlast)
  have J1: "\<forall>j. 2 \<le> j \<longrightarrow> j < length xs1 \<longrightarrow> j div 2 \<noteq> 1 \<longrightarrow>
      0 \<le> compare p (xs1 ! j) (xs1 ! (j div 2))"
  proof (intro allI impI)
    fix j assume j: "2 \<le> j" "j < length xs1" "j div 2 \<noteq> 1"
    then have "2 \<le> j div 2" "j div 2 < length xs1" by auto
    then have "xs1 ! (j div 2) = xs ! (j div 2)" by (rule nth1)
    moreover have "xs1 ! j = xs ! j" using j by (simp add: nth1)
    moreover have "0 \<le> compare p (xs ! j) (xs ! (j div 2))"
      using h j len1 by (simp add: min_heap_def heap_prop_def xs_def)
    ultimately show "0 \<le> compare p (xs1 ! j) (xs1 ! (j div 2))" by simp
  qed
  have J2: "\<forall>j. 2 \<le> j \<longrightarrow> j < length xs1 \<longrightarrow> j div 2 = 1 \<longrightarrow> 2 \<le> (1::nat) \<longrightarrow>
      0 \<le> compare p (xs1 ! j) (xs1 ! (1 div 2))" by simp
  from heapify_heap[OF to refl _ J1 J2] obtain ys
    where ys: "heapify (compare p) xs1 (length xs1 - 1) 1 = Inr ys" "length ys = length xs1"
      "heap_prop (compare p) ys" by auto
  have "Dequeue grow p = Inr (Inr (xs ! 1), p2\<lparr>data := (data p2)\<lparr>elems := ys\<rparr>\<rparr>)"
    using ne rr p2 ys(1) by (simp add: Dequeue_def Let_def)
  then show ?thesis using ys len1 p2 by (simp add: min_heap_def xs_def)
qed

lemma heapify_no_panic:
  "n = length xs - 1 \<Longrightarrow> 1 \<le> i \<Longrightarrow> \<exists>ys. heapify cmp xs n i = Inr ys \<and> length ys = length xs"
proof (induction cmp xs n i rule: heapify.induct)
  case (1 cmp xs n i)
  note n = "1.prems"(1) and ipos = "1.prems"(2)
  define b1 where "b1 = (i * 2 \<le> n \<and> cmp (xs ! (i * 2)) (xs ! i) < 0)"
  define m1 where "m1 = (if b1 then i * 2 else i)"
  define b2 where "b2 = (i * 2 + 1 \<le> n \<and> cmp (xs ! (i * 2 + 1)) (xs ! m1) < 0)"
  define m where "m = (if b2 then i * 2 + 1 else m1)"
  have e1: "(if i * 2 \<le> n then less_at cmp xs (i * 2) i else Inr False) = Inr b1"
    using n ipos by (auto simp: b1_def less_at_def)
  have e2: "(if i * 2 + 1 \<le> n then less_at cmp xs (i * 2 + 1) m1 else Inr False) = Inr b2"
    using n ipos by (auto simp: b2_def less_at_def m1_def)
  have unf: "heapify cmp xs n i =
      (if m = i then Inr xs
       else case swap_at xs i m of Inl e \<Rightarrow> Inl e | Inr d \<Rightarrow> heapify cmp d n m)"
    by (subst heapify.simps) (simp only: e1 e2 Let_def m1_def[symmetric] m_def[symmetric] sum.case)
  show ?case
  proof (cases "m = i")
    case True
    with unf show ?thesis by simp
  next
    case False
    have mn: "m \<le> n" "i < m" using False ipos
      by (auto simp: m_def m1_def b1_def b2_def split: if_splits)
    define xs' where "xs' = xs[i := xs ! m, m := xs ! i]"
    have sf: "swap_at xs i m = Inr xs'" using mn n by (auto simp: swap_at_def xs'_def)
    have n': "n = length xs' - 1" using n by (simp add: xs'_def)
    have mpos: "1 \<le> m" using mn by simp
    note "1.IH"[OF e1 m1_def e2 m_def False sf n' mpos]
    with unf False sf show ?thesis by (simp add: xs'_def)
  qed
qed

lemma Peek_eq:
  "Peek p = (if length (elems (data p)) < 2 then Inr (Inl ErrEmptyQueue, p)
             else Inr (Inr (elems (data p) ! 1), p))"
  by (simp add: Peek_def isEmpty_def index_def)

lemma reachable_inv:
  assumes to: "total_order_cmp cmp" and r: "reachable grow cmp p"
  shows "compare p = cmp \<and> min_heap p \<and> 1 \<le> length (elems (data p))"
  using r
proof (induction rule: reachable.induct)
  case (reach_new lim z c p)
  from NewPriorityQueue_Inr[OF this] show ?case
    by (simp add: min_heap_def heap_prop_short)
next
  case (reach_peek p r p')
  then show ?case by (auto simp: Peek_eq split: if_splits)
next
  case (reach_enqueue p t e p')
  show ?case
  proof (cases "isFull p")
    case True
    with reach_enqueue show ?thesis by (simp add: Enqueue_full)
  next
    case False
    from reach_enqueue.IH to have "total_order_cmp (compare p)" "min_heap p" by simp_all
    from Enqueue_heap[OF this False, of grow t] reach_enqueue show ?thesis by auto
  qed
next
  case (reach_dequeue p r p')
  show ?case
  proof (cases "isEmpty p")
    case True
    with reach_dequeue show ?thesis by (simp add: Dequeue_empty)
  next
    case False
    then have l: "2 \<le> length (elems (data p))" by (simp add: isEmpty_def)
    from reach_dequeue.IH to have "total_order_cmp (compare p)" "min_heap p" by simp_all
    from Dequeue_heap[OF this False, of grow] reach_dequeue l show ?thesis by auto
  qed
qed

lemma heap_root_min:
  assumes to: "total_order_cmp cmp" and h: "heap_prop cmp xs"
  shows "1 \<le> i \<Longrightarrow> i < length xs \<Longrightarrow> cmp (xs ! 1) (xs ! i) \<le> 0"
proof (induction i rule: less_induct)
  case (less i)
  show ?case
  proof (cases "i = 1")
    case True
    then show ?thesis using cmp_refl[OF to] by simp
  next
    case False
    with less.prems have i2: "2 \<le> i" by simp
    then have "cmp (xs ! 1) (xs ! (i div 2)) \<le> 0" using less.prems by (intro less.IH) auto
    moreover have "0 \<le> cmp (xs ! i) (xs ! (i div 2))"
      using h i2 less.prems by (simp add: heap_prop_def)
    then have "cmp (xs ! (i div 2)) (xs ! i) \<le> 0" by (rule cmp_flip_ge[OF to])
    ultimately show ?thesis using to unfolding total_order_cmp_def by blast
  qed
qed

lemma siftUp_no_panic:
  "node < length xs \<Longrightarrow> parent \<le> node \<Longrightarrow>
   \<exists>ys. siftUp cmp xs node parent = Inr ys \<and> length ys = length xs"
proof (induction cmp xs node parent rule: siftUp.induct)
  case (1 cmp xs node parent)
  show ?case
  proof (cases "parent > 0 \<and> cmp (xs ! node) (xs ! parent) < 0")
    case False
    then have "siftUp cmp xs node parent = Inr xs"
      using "1.prems" by (subst siftUp.simps) (auto simp: less_at_def)
    then show ?thesis by simp
  next
    case True
    define xs' where "xs' = xs[parent := xs ! node, node := xs ! parent]"
    have ppos: "0 < parent" using True by simp
    have lf: "less_at cmp xs node parent = Inr True" using True "1.prems" by (simp add: less_at_def)
    have sf: "swap_at xs parent node = Inr xs'" using "1.prems" by (simp add: swap_at_def xs'_def)
    have pl: "parent < length xs'" using "1.prems" by (simp add: xs'_def)
    have pp: "parent div 2 \<le> parent" by simp
    have "siftUp cmp xs node parent = siftUp cmp xs' parent (parent div 2)"
      using True "1.prems" by (subst siftUp.simps) (simp add: less_at_def swap_at_def xs'_def)
    with "1.IH"[OF ppos lf TrueI sf pl pp] show ?thesis by (simp add: xs'_def)
  qed
qed

lemma Enqueue_no_panic:
  "\<exists>e p'. Enqueue grow p t = Inr (e, p') \<and>
     (e = Some ErrOutOfCapacity \<and> p' = p \<or>
      e = None \<and> length (elems (data p')) = Suc (length (elems (data p))))"
proof (cases "isFull p")
  case True
  then show ?thesis by (simp add: Enqueue_def)
next
  case False
  define d where "d = append_go grow (data p) [t]"
  have ed: "length (elems d) = Suc (length (elems (data p)))"
    by (simp add: d_def append_go_def Let_def)
  from siftUp_no_panic[of "length (elems d) - 1" "elems d" "(length (elems d) - 1) div 2" "compare p"]
  obtain ys where "siftUp (compare p) (elems d) (length (elems d) - 1) ((length (elems d) - 1) div 2) = Inr ys"
    "length ys = length (elems d)" using ed by auto
  with False ed show ?thesis by (simp add: Enqueue_def Let_def d_def[symmetric])
qed

lemma Dequeue_result:
  "\<exists>r p'. Dequeue grow p = Inr (r, p') \<and>
     (r = Inl ErrEmptyQueue \<and> p' = p \<and> isEmpty p \<or>
      r = Inr (elems (data p) ! 1) \<and> \<not> isEmpty p \<and>
        Suc (length (elems (data p'))) = length (elems (data p)))"
proof (cases "isEmpty p")
  case True
  then show ?thesis by (simp add: Dequeue_def)
next
  case False
  then have l: "2 \<le> length (elems (data p))" by (simp add: isEmpty_def)
  define p1 where "p1 = p\<lparr>data := (data p)\<lparr>elems := butlast ((elems (data p))[1 := last (elems (data p))])\<rparr>\<rparr>"
  have rr: "removeRoot p = Inr (elems (data p) ! 1, p1)"
    using removeRoot_ok[OF False] by (simp add: p1_def)
  have l1: "Suc (length (elems (data p1))) = length (elems (data p))" using l by (simp add: p1_def)
  then have "elems (data p1) \<noteq> []" using l by auto
  from shrinkIfNecessary_elems[OF this, of grow] obtain p2
    where p2: "shrinkIfNecessary grow p1 = Inr p2" "elems (data p2) = elems (data p1)" by blast
  from heapify_no_panic[OF refl, of 1 "compare p2" "elems (data p2)"] obtain ys
    where "heapify (compare p2) (elems (data p2)) (length (elems (data p2)) - 1) 1 = Inr ys"
      "length ys = length (elems (data p2))"
    by auto
  with False rr p2 l1 show ?thesis by (simp add: Dequeue_def Let_def)
qed

lemma reachable_sentinel:
  "reachable grow cmp p \<Longrightarrow> 1 \<le> length (elems (data p))"
proof (induction rule: reachable.induct)
  case (reach_new lim z c p)
  from NewPriorityQueue_Inr[OF this] show ?case by simp
next
  case (reach_peek p r p')
  then show ?case by (auto simp: Peek_eq split: if_splits)
next
  case (reach_enqueue p t e p')
  with Enqueue_no_panic[of grow p t] show ?case by auto
next
  case (reach_dequeue p r p')
  with Dequeue_result[of grow p] show ?case by (auto simp: isEmpty_def)
qed

section \<open>Concrete runs and the claims about the priority queue\<close>

lemma scenario_new: "NewPriorityQueue (3 + int k) 0 2 int_cmp = Inr (bounded2 [0])"
  by (simp add: NewPriorityQueue_def wrap64_def make_slice_def bounded2_def)

lemma scenario_enqueue5: "Enqueue grow (bounded2 [0]) 5 = Inr (None, bounded2 [0, 5])"
  by (simp add: Enqueue_def isFull_def bounded2_def append_go_def siftUp.simps)

lemma scenario_enqueue3: "Enqueue grow (bounded2 [0, 5]) 3 = Inr (None, bounded2 [0, 3, 5])"
  by (simp add: Enqueue_def isFull_def bounded2_def append_go_def siftUp.simps less_at_def
      swap_at_def int_cmp_def)

lemma scenario_peek3: "Peek (bounded2 [0, 3, 5]) = Inr (Inr 3, bounded2 [0, 3, 5])"
  by (simp add: Peek_eq bounded2_def)

lemma scenario_enqueue9:
  "Enqueue grow (bounded2 [0, 3, 5]) 9 = Inr (Some ErrOutOfCapacity, bounded2 [0, 3, 5])"
  by (simp add: Enqueue_def isFull_def bounded2_def)

lemma scenario_dequeue: "Dequeue grow (bounded2 [0, 3, 5]) = Inr (Inr 3, bounded2 [0, 5])"
  by (simp add: Dequeue_def isEmpty_def removeRoot_def index_def assign_def bounded2_def
      shrinkIfNecessary_def IsBoundless_def heapify.simps)

lemma scenario_peek5: "Peek (bounded2 [0, 5]) = Inr (Inr 5, bounded2 [0, 5])"
  by (simp add: Peek_eq bounded2_def)

lemma scenario_reachable: "reachable grow int_cmp (bounded2 [0, 3, 5])"
  by (rule reach_enqueue[OF reach_enqueue[OF reach_new[OF scenario_new] scenario_enqueue5] scenario_enqueue3])

lemma scenario_dequeue5: "Dequeue grow (bounded2 [0, 5]) = Inr (Inr 5, bounded2 [0])"
  by (simp add: Dequeue_def isEmpty_def removeRoot_def index_def assign_def bounded2_def
      shrinkIfNecessary_def IsBoundless_def heapify.simps)

lemma scenario_min_heap: "min_heap (bounded2 [0, 5])"
  by (simp add: min_heap_def bounded2_def heap_prop_short)

lemma compare_bounded2: "compare (bounded2 xs) = int_cmp"
  by (simp add: bounded2_def)


lemma unbounded_new: "NewPriorityQueue (64 + int k) 0 0 int_cmp = Inr (unbounded [0])"
  by (simp add: NewPriorityQueue_def make_slice_def unbounded_def)

lemma unbounded_enqueue7: "Enqueue grow (unbounded [0]) 7 = Inr (None, unbounded [0, 7])"
  by (simp add: Enqueue_def isFull_def unbounded_def append_go_def siftUp.simps)

lemma unbounded_dequeue: "Dequeue grow (unbounded [0, 7]) = Inr (Inr 7, unbounded [0])"
  by (simp add: Dequeue_def isEmpty_def removeRoot_def index_def assign_def unbounded_def
      shrinkIfNecessary_def IsBoundless_def Shrink_def calCapacity_def heapify.simps)

lemma unbounded_reachable: "reachable grow int_cmp (unbounded [0, 7])"
  by (rule reach_enqueue[OF reach_new[OF unbounded_new] unbounded_enqueue7])

text \<open>
  Claim C1. With a comparator of a total order, the min-heap invariant
  \<open>compare(heap[i], heap[i/2]) \<ge> 0\<close> for every \<open>i > 1\<close> holds for a newly constructed queue,
  and every successful \<open>Enqueue\<close> and every successful \<open>Dequeue\<close> on a queue that
  satisfies it returns a queue that satisfies it, for every element type.
\<close>

theorem min_heap_invariant:
  assumes "total_order_cmp (compare p)"
  shows "(NewPriorityQueue lim z c (compare p) = Inr p0 \<longrightarrow> min_heap p0)
       \<and> (min_heap p \<and> Enqueue grow p t = Inr (None, p') \<longrightarrow> min_heap p')
       \<and> (min_heap p \<and> Dequeue grow p = Inr (Inr v, p'') \<longrightarrow> min_heap p'')"
proof (intro conjI impI)
  assume "NewPriorityQueue lim z c (compare p) = Inr p0"
  from NewPriorityQueue_Inr[OF this] show "min_heap p0"
    by (simp add: min_heap_def heap_prop_short)
next
  assume a: "min_heap p \<and> Enqueue grow p t = Inr (None, p')"
  then have "\<not> isFull p" by (auto simp: Enqueue_full)
  from Enqueue_heap[OF assms _ this, of grow t] a show "min_heap p'" by auto
next
  assume a: "min_heap p \<and> Dequeue grow p = Inr (Inr v, p'')"
  then have "\<not> isEmpty p" by (auto simp: Dequeue_empty)
  from Dequeue_heap[OF assms _ this, of grow] a show "min_heap p''" by auto
qed

text \<open>
  The theorem on the integer queue holding 5: it was built from the constructor's
  queue, \<open>Enqueue 3\<close> and \<open>Dequeue\<close> succeed on it, and their results are heaps.
\<close>

theorem min_heap_invariant_witness:
  "total_order_cmp (compare (bounded2 [0, 5])) \<and> min_heap (bounded2 [0, 5])
   \<and> NewPriorityQueue 3 0 2 (compare (bounded2 [0, 5])) = Inr (bounded2 [0])
   \<and> min_heap (bounded2 [0])
   \<and> Enqueue (\<lambda>c n. 2 * n) (bounded2 [0, 5]) 3 = Inr (None, bounded2 [0, 3, 5])
   \<and> min_heap (bounded2 [0, 3, 5])
   \<and> Dequeue (\<lambda>c n. 2 * n) (bounded2 [0, 5]) = Inr (Inr 5, bounded2 [0])"
proof -
  have to: "total_order_cmp (compare (bounded2 [0, 5]))"
    by (simp add: compare_bounded2 int_cmp_total)
  have n: "NewPriorityQueue 3 0 2 (compare (bounded2 [0, 5])) = Inr (bounded2 [0])"
    using scenario_new[of 0] by (simp add: compare_bounded2)
  note e = scenario_enqueue3[of "\<lambda>c n. 2 * n"]
  note d = scenario_dequeue5[of "\<lambda>c n. 2 * n"]
  from min_heap_invariant[OF to, where lim = 3 and z = 0 and c = 2 and ?p0.0 = "bounded2 [0]"
      and grow = "\<lambda>c n. 2 * n" and t = 3 and p' = "bounded2 [0, 3, 5]"
      and v = 5 and p'' = "bounded2 [0]"]
  show ?thesis using to n e d scenario_min_heap by simp
qed

text \<open>
  Claim C7. In every reachable state of a queue with a comparator of a total order,
  \<open>Peek\<close> returns the queue it was given (no mutation, no panic); it fails with
  \<open>ErrEmptyQueue\<close> exactly when the queue holds no elements, and otherwise returns a
  held element that no held element precedes.
\<close>

theorem Peek_minimum:
  assumes "total_order_cmp cmp" and "reachable grow cmp p"
  shows "(held p = [] \<longrightarrow> Peek p = Inr (Inl ErrEmptyQueue, p))
       \<and> (held p \<noteq> [] \<longrightarrow>
            (\<exists>v. Peek p = Inr (Inr v, p) \<and> v \<in> set (held p) \<and> (\<forall>x\<in>set (held p). cmp v x \<le> 0)))"
proof -
  define xs where "xs = elems (data p)"
  from reachable_inv[OF assms] have c: "compare p = cmp" and h: "heap_prop cmp xs"
    and l: "1 \<le> length xs" by (auto simp: min_heap_def xs_def)
  have hl: "length (held p) = length xs - 1" by (simp add: held_def xs_def)
  show ?thesis
  proof (intro conjI impI)
    assume "held p = []"
    with hl l have "length xs < 2" by simp
    then show "Peek p = Inr (Inl ErrEmptyQueue, p)" by (simp add: Peek_eq xs_def)
  next
    assume "held p \<noteq> []"
    with hl have l2: "2 \<le> length xs" by (cases "held p") simp_all
    have nth: "\<And>k. k < length (held p) \<Longrightarrow> held p ! k = xs ! Suc k"
      by (simp add: held_def xs_def nth_tl)
    have pk: "Peek p = Inr (Inr (xs ! 1), p)" using l2 by (simp add: Peek_eq xs_def)
    have mem: "xs ! 1 \<in> set (held p)"
      using nth[of 0] l2 hl by (metis One_nat_def Suc_1 Suc_le_lessD diff_Suc_1 less_eq_Suc_le nth_mem zero_less_diff)
    have mn: "\<forall>x\<in>set (held p). cmp (xs ! 1) x \<le> 0"
    proof
      fix x assume "x \<in> set (held p)"
      then obtain k where k: "k < length (held p)" "x = held p ! k" by (auto simp: in_set_conv_nth)
      then have "x = xs ! Suc k" "Suc k < length xs" using nth hl by auto
      with heap_root_min[OF assms(1) h, of "Suc k"] show "cmp (xs ! 1) x \<le> 0" by simp
    qed
    from pk mem mn show "\<exists>v. Peek p = Inr (Inr v, p) \<and> v \<in> set (held p) \<and> (\<forall>x\<in>set (held p). cmp v x \<le> 0)"
      by blast
  qed
qed

text \<open>The theorem on the reachable queue holding 3 and 5, where \<open>Peek\<close> returns 3.\<close>

theorem Peek_minimum_witness:
  "total_order_cmp int_cmp \<and> reachable (\<lambda>c n. 2 * n) int_cmp (bounded2 [0, 3, 5])
   \<and> held (bounded2 [0, 3, 5]) = [3, 5]
   \<and> Peek (bounded2 [0, 3, 5]) = Inr (Inr 3, bounded2 [0, 3, 5])
   \<and> (\<exists>v. Peek (bounded2 [0, 3, 5]) = Inr (Inr v, bounded2 [0, 3, 5])
          \<and> v \<in> set (held (bounded2 [0, 3, 5]))
          \<and> (\<forall>x\<in>set (held (bounded2 [0, 3, 5])). int_cmp v x \<le> 0))"
proof -
  have h: "held (bounded2 [0, 3, 5]) = [3, 5]" by (simp add: held_def bounded2_def)
  from Peek_minimum[OF int_cmp_total scenario_reachable[of "\<lambda>c n. 2 * n"]]
  show ?thesis using int_cmp_total scenario_reachable[of "\<lambda>c n. 2 * n"] scenario_peek3 h by simp
qed

text \<open>
  Claim C8. The scenario of the specification on a queue bounded by 2 with the ascending
  comparator on integers, wherever the runtime can allocate the three slots the
  constructor asks for (a bound of \<open>3 + k\<close> elements, for every \<open>k\<close>) and however \<open>append\<close>
  grows a slice: the constructor succeeds; \<open>Enqueue(5)\<close> succeeds; \<open>Enqueue(3)\<close> succeeds and \<open>Peek\<close> returns 3;
  \<open>Enqueue(9)\<close> fails with \<open>ErrOutOfCapacity\<close>; \<open>Dequeue\<close> returns 3; \<open>Peek\<close> returns 5.
\<close>

theorem bounded_queue_scenario:
  "NewPriorityQueue (3 + int k) 0 2 int_cmp = Inr (bounded2 [0])
   \<and> Enqueue grow (bounded2 [0]) 5 = Inr (None, bounded2 [0, 5])
   \<and> Enqueue grow (bounded2 [0, 5]) 3 = Inr (None, bounded2 [0, 3, 5])
   \<and> Peek (bounded2 [0, 3, 5]) = Inr (Inr 3, bounded2 [0, 3, 5])
   \<and> Enqueue grow (bounded2 [0, 3, 5]) 9 = Inr (Some ErrOutOfCapacity, bounded2 [0, 3, 5])
   \<and> Dequeue grow (bounded2 [0, 3, 5]) = Inr (Inr 3, bounded2 [0, 5])
   \<and> Peek (bounded2 [0, 5]) = Inr (Inr 5, bounded2 [0, 5])"
  by (simp only: scenario_new scenario_enqueue5 scenario_enqueue3 scenario_peek3
      scenario_enqueue9 scenario_dequeue scenario_peek5 simp_thms)

text \<open>
  Claim C10. \<open>Shrink\<close> on a slice of length 0 and capacity above 64 panics with a division
  by zero. \<open>Dequeue\<close> calls \<open>shrinkIfNecessary\<close> on a slice of length at least 1 (the queue
  was not empty, so its slice had length at least 2 before the last element was cut off),
  that call does not panic, and \<open>Dequeue\<close> never panics; in every reachable state the slice
  has length at least 1 (the slot at index 0).
\<close>

theorem shrink_division_unreachable:
  "(elems s = [] \<and> 64 < cap s \<longrightarrow> Shrink grow s = Inl DivideByZero)
   \<and> (\<not> isEmpty p \<longrightarrow>
        (\<exists>pop p1 p2. removeRoot p = Inr (pop, p1) \<and> 1 \<le> length (elems (data p1))
           \<and> shrinkIfNecessary grow p1 = Inr p2))
   \<and> (\<exists>r p'. Dequeue grow p = Inr (r, p'))
   \<and> (reachable grow cmp r \<longrightarrow> 1 \<le> length (elems (data r)))"
proof (intro conjI impI)
  assume "elems s = [] \<and> 64 < cap s"
  then show "Shrink grow s = Inl DivideByZero" by (simp add: Shrink_zero_length)
next
  assume ne: "\<not> isEmpty p"
  then have l: "2 \<le> length (elems (data p))" by (simp add: isEmpty_def)
  define p1 where "p1 = p\<lparr>data := (data p)\<lparr>elems := butlast ((elems (data p))[1 := last (elems (data p))])\<rparr>\<rparr>"
  have rr: "removeRoot p = Inr (elems (data p) ! 1, p1)"
    using removeRoot_ok[OF ne] by (simp add: p1_def)
  have l1: "1 \<le> length (elems (data p1))" using l by (simp add: p1_def)
  then have "elems (data p1) \<noteq> []" by auto
  from shrinkIfNecessary_elems[OF this, of grow] obtain p2
    where "shrinkIfNecessary grow p1 = Inr p2" by blast
  with rr l1 show "\<exists>pop p1 p2. removeRoot p = Inr (pop, p1) \<and> 1 \<le> length (elems (data p1))
           \<and> shrinkIfNecessary grow p1 = Inr p2" by blast
next
  from Dequeue_result[of grow p] show "\<exists>r p'. Dequeue grow p = Inr (r, p')" by blast
next
  assume "reachable grow cmp r"
  then show "1 \<le> length (elems (data r))" by (rule reachable_sentinel)
qed

text \<open>
  The theorem on an empty slice of capacity 100, where \<open>Shrink\<close> panics, and on the
  reachable unbounded queue holding 7, where \<open>Dequeue\<close> returns 7.
\<close>

theorem shrink_division_unreachable_witness:
  "elems \<lparr>elems = ([]::int list), cap = 100\<rparr> = [] \<and> 64 < cap \<lparr>elems = ([]::int list), cap = 100\<rparr>
   \<and> Shrink (\<lambda>c n. 2 * n) \<lparr>elems = ([]::int list), cap = 100\<rparr> = Inl DivideByZero
   \<and> \<not> isEmpty (unbounded [0, 7])
   \<and> reachable (\<lambda>c n. 2 * n) int_cmp (unbounded [0, 7])
   \<and> Dequeue (\<lambda>c n. 2 * n) (unbounded [0, 7]) = Inr (Inr 7, unbounded [0])
   \<and> (\<exists>pop p1 p2. removeRoot (unbounded [0, 7]) = Inr (pop, p1) \<and> 1 \<le> length (elems (data p1))
           \<and> shrinkIfNecessary (\<lambda>c n. 2 * n) p1 = Inr p2)
   \<and> 1 \<le> length (elems (data (unbounded [0, 7])))"
proof -
  have ne: "\<not> isEmpty (unbounded [0, 7])" by (simp add: isEmpty_def unbounded_def)
  note r = unbounded_reachable[of "\<lambda>c n. 2 * n"]
  from shrink_division_unreachable[of "\<lparr>elems = ([]::int list), cap = 100\<rparr>" "\<lambda>c n. 2 * n"
      "unbounded [0, 7]" int_cmp "unbounded [0, 7]"]
  show ?thesis using ne r unbounded_dequeue[of "\<lambda>c n. 2 * n"] by simp
qed

section \<open>The broadcast condition\<close>

lemma cond_reachable_inv:
  "cond_reachable c s \<Longrightarrow> signal c < length (chans s) \<and> \<not> chans s ! signal c"
proof (induction rule: cond_reachable.induct)
  case (cr_new s0 c s)
  then show ?case by (auto simp: newCond_def make_chan_def nth_append)
next
  case (cr_lock c s s')
  then show ?case by (auto simp: lock_def split: if_splits)
next
  case (cr_unlock c s s')
  then show ?case by (auto simp: unlock_def split: if_splits)
next
  case (cr_broadcast c s c' s')
  then show ?case
    by (auto simp: broadcast_def make_chan_def unlock_def close_chan_def Let_def nth_append
        split: if_splits)
next
  case (cr_signalCh c s ch s')
  then show ?case by (auto simp: signalCh_def unlock_def Let_def split: if_splits)
next
  case (cr_other_make c s ch s')
  then show ?case by (auto simp: make_chan_def nth_append)
next
  case (cr_other_close c s ch s')
  then show ?case by (auto simp: close_chan_def split: if_splits)
qed

lemma broadcast_eq:
  assumes "locked s" and "signal c < length (chans s)" and "\<not> chans s ! signal c"
  shows "broadcast c s =
    Inr (c\<lparr>signal := length (chans s)\<rparr>,
         s\<lparr>locked := False, chans := (chans s)[signal c := True] @ [False],
           trace := trace s @ [MadeChan (length (chans s)), Installed (length (chans s)),
                               Unlocked, Closed (signal c)]\<rparr>)"
  using assms
  by (simp add: broadcast_def make_chan_def unlock_def close_chan_def Let_def nth_append
      list_update_append)

text \<open>
  Claim C5. In every reachable state of a condition in which its mutex is held,
  \<open>broadcast\<close> makes a new open channel, installs it as the current signal channel,
  releases the mutex and then closes the channel that was current, in this order (the
  trace). Afterwards the current channel differs from the old one and is open, the old
  one is closed, no other channel has changed and the mutex is free.
\<close>

theorem broadcast_effect:
  assumes "cond_reachable c s" and "locked s"
  shows "\<exists>c' s'. broadcast c s = Inr (c', s')
           \<and> signal c' = length (chans s) \<and> signal c' \<noteq> signal c
           \<and> chans s' = (chans s)[signal c := True] @ [False]
           \<and> \<not> chans s' ! signal c' \<and> chans s' ! signal c
           \<and> \<not> locked s'
           \<and> trace s' = trace s @ [MadeChan (signal c'), Installed (signal c'),
                                    Unlocked, Closed (signal c)]"
proof -
  from cond_reachable_inv[OF assms(1)] have i: "signal c < length (chans s)" "\<not> chans s ! signal c"
    by simp_all
  from broadcast_eq[OF assms(2) i] i show ?thesis by (simp add: nth_append)
qed

lemma cond_locked_reachable: "cond_reachable \<lparr>signal = 0\<rparr> \<lparr>locked = True, chans = [False], trace = [MadeChan 0, Locked]\<rparr>"
proof -
  have "newCond \<lparr>locked = False, chans = [], trace = []\<rparr> = (\<lparr>signal = 0\<rparr>, \<lparr>locked = False, chans = [False], trace = [MadeChan 0]\<rparr>)"
    by (simp add: newCond_def make_chan_def)
  then have "cond_reachable \<lparr>signal = 0\<rparr> \<lparr>locked = False, chans = [False], trace = [MadeChan 0]\<rparr>"
    by (rule cr_new)
  then show ?thesis by (rule cr_lock) (simp add: lock_def)
qed

text \<open>The theorem on a condition that was just made and whose mutex was then locked.\<close>

theorem broadcast_effect_witness:
  "cond_reachable \<lparr>signal = 0\<rparr> \<lparr>locked = True, chans = [False], trace = [MadeChan 0, Locked]\<rparr>
   \<and> locked \<lparr>locked = True, chans = [False], trace = [MadeChan 0, Locked]\<rparr>
   \<and> broadcast \<lparr>signal = 0\<rparr> \<lparr>locked = True, chans = [False], trace = [MadeChan 0, Locked]\<rparr>
       = Inr (\<lparr>signal = 1\<rparr>, \<lparr>locked = False, chans = [True, False],
               trace = [MadeChan 0, Locked, MadeChan 1, Installed 1, Unlocked, Closed 0]\<rparr>)"
proof -
  from broadcast_effect[OF cond_locked_reachable] obtain c' s' where
    "broadcast \<lparr>signal = 0\<rparr> \<lparr>locked = True, chans = [False], trace = [MadeChan 0, Locked]\<rparr> = Inr (c', s')"
    "signal c' = 1" "chans s' = [True, False]" "\<not> locked s'"
    "trace s' = [MadeChan 0, Locked, MadeChan 1, Installed 1, Unlocked, Closed 0]"
    by auto
  then show ?thesis using cond_locked_reachable by (cases c'; cases s') simp
qed

section \<open>The delay queue\<close>

lemma after_others_fields [simp]:
  "data (after_others f p) = f (data p)"
  "capacity (after_others f p) = capacity p"
  "compare (after_others f p) = compare p"
  by (simp_all add: after_others_def)

lemma after_others_id [simp]: "after_others (\<lambda>s. s) p = p"
  by (simp add: after_others_def)

lemma after_others_twice: "after_others g (after_others f p) = after_others (\<lambda>s. g (f s)) p"
  by (simp add: after_others_def)

lemma dequeue_and_broadcast_result:
  assumes "dequeue_and_broadcast grow dl d = Inr (st, d')"
  shows "\<exists>r. st = Return r \<and> Dequeue grow ((q d)\<lparr>compare := delay_cmp dl\<rparr>) = Inr (r, q d')"
  using assms
  by (auto simp: dequeue_and_broadcast_def split: sum.splits prod.splits)

lemma Dequeue_value_root:
  assumes "Dequeue grow p = Inr (Inr v, p')"
  shows "\<not> isEmpty p \<and> v = elems (data p) ! 1"
  using Dequeue_result[of grow p] assms by auto

lemma Dequeue_nonempty_value:
  assumes "\<not> isEmpty p" and "Dequeue grow p = Inr (r, p')"
  shows "r = Inr (elems (data p) ! 1)"
  using Dequeue_result[of grow p] assms by auto

lemma dequeue_and_broadcast_value:
  assumes "dequeue_and_broadcast grow dl d = Inr (st, d')" and "2 \<le> length (elems (data (q d)))"
  shows "\<exists>v. st = Return (Inr v)"
proof -
  from dequeue_and_broadcast_result[OF assms(1)] obtain r where
    r: "st = Return r" "Dequeue grow ((q d)\<lparr>compare := delay_cmp dl\<rparr>) = Inr (r, q d')" by blast
  have "\<not> isEmpty ((q d)\<lparr>compare := delay_cmp dl\<rparr>)" using assms(2) by (simp add: isEmpty_def)
  from Dequeue_nonempty_value[OF this r(2)] r(1) show ?thesis by simp
qed

text \<open>The end of both removing paths, on a heap whose root was just read.\<close>

lemma dequeue_and_broadcast_root:
  assumes "dequeue_and_broadcast grow dl d = Inr (Return (Inr v), d')"
  shows "Peek (q d) = Inr (Inr v, q d) \<and>
         Dequeue grow ((q d)\<lparr>compare := delay_cmp dl\<rparr>) = Inr (Inr v, q d')"
proof -
  from dequeue_and_broadcast_result[OF assms]
  have dq: "Dequeue grow ((q d)\<lparr>compare := delay_cmp dl\<rparr>) = Inr (Inr v, q d')" by simp
  from Dequeue_value_root[OF dq] have "2 \<le> length (elems (data (q d)))" "v = elems (data (q d)) ! 1"
    by (simp_all add: isEmpty_def)
  then have "Peek (q d) = Inr (Inr v, q d)" by (simp add: Peek_eq)
  with dq show ?thesis by simp
qed

lemma Dequeue_iter_value:
  assumes "DelayQueue_Dequeue_iter grow ob d = Inr (Return (Inr v), d')"
  shows "(delays ob v \<le> 0 \<and>
          Peek (after_others (others ob) (q d)) = Inr (Inr v, after_others (others ob) (q d)) \<and>
          Dequeue grow ((after_others (others ob) (q d))\<lparr>compare := delay_cmp (delays ob)\<rparr>)
            = Inr (Inr v, q d'))
       \<or> (wake ob = TimerFired \<and> delays_timer ob v \<le> 0 \<and>
          Peek (after_others (others_timer ob) (after_others (others ob) (q d)))
            = Inr (Inr v, after_others (others_timer ob) (after_others (others ob) (q d))) \<and>
          Dequeue grow ((after_others (others_timer ob) (after_others (others ob) (q d)))
                          \<lparr>compare := delay_cmp (delays_timer ob)\<rparr>) = Inr (Inr v, q d') \<and>
          (\<exists>w. Peek (after_others (others ob) (q d)) = Inr (Inr w, after_others (others ob) (q d)) \<and>
               0 < delays ob w))"
proof -
  define h1 where "h1 = after_others (others ob) (q d)"
  define h2 where "h2 = after_others (others_timer ob) h1"
  from assms have nc: "\<not> ctx_done ob" by (auto simp: DelayQueue_Dequeue_iter_def)
  from assms nc obtain m1 where m1: "lock (mutex d) = Some m1"
    by (auto simp: DelayQueue_Dequeue_iter_def split: option.splits)
  have ?thesis unfolding h1_def[symmetric] h2_def[symmetric]
  proof (cases "length (elems (data h1)) < 2")
    case True
    with assms nc m1 show "(delays ob v \<le> 0 \<and> Peek h1 = Inr (Inr v, h1) \<and>
          Dequeue grow (h1\<lparr>compare := delay_cmp (delays ob)\<rparr>) = Inr (Inr v, q d'))
       \<or> (wake ob = TimerFired \<and> delays_timer ob v \<le> 0 \<and> Peek h2 = Inr (Inr v, h2) \<and>
          Dequeue grow (h2\<lparr>compare := delay_cmp (delays_timer ob)\<rparr>) = Inr (Inr v, q d') \<and>
          (\<exists>w. Peek h1 = Inr (Inr w, h1) \<and> 0 < delays ob w))"
      by (auto simp: DelayQueue_Dequeue_iter_def Peek_eq Let_def h1_def[symmetric]
          split: sum.splits prod.splits if_splits)
  next
    case False
    define w where "w = elems (data h1) ! 1"
    have pk: "Peek h1 = Inr (Inr w, h1)" using False by (simp add: Peek_eq w_def)
    show "(delays ob v \<le> 0 \<and> Peek h1 = Inr (Inr v, h1) \<and>
          Dequeue grow (h1\<lparr>compare := delay_cmp (delays ob)\<rparr>) = Inr (Inr v, q d'))
       \<or> (wake ob = TimerFired \<and> delays_timer ob v \<le> 0 \<and> Peek h2 = Inr (Inr v, h2) \<and>
          Dequeue grow (h2\<lparr>compare := delay_cmp (delays_timer ob)\<rparr>) = Inr (Inr v, q d') \<and>
          (\<exists>w. Peek h1 = Inr (Inr w, h1) \<and> 0 < delays ob w))"
    proof (cases "delays ob w \<le> 0")
      case True
      with assms nc m1 pk
      have "dequeue_and_broadcast grow (delays ob) (d\<lparr>q := h1, mutex := m1\<rparr>) = Inr (Return (Inr v), d')"
        by (simp add: DelayQueue_Dequeue_iter_def Let_def h1_def[symmetric])
      from dequeue_and_broadcast_root[OF this]
      have r: "Peek h1 = Inr (Inr v, h1)"
        "Dequeue grow (h1\<lparr>compare := delay_cmp (delays ob)\<rparr>) = Inr (Inr v, q d')" by simp_all
      with pk have "v = w" by simp
      with True r show ?thesis by simp
    next
      case F2: False
      have l2: "\<not> length (elems (data h2)) < 2"
      proof
        assume "length (elems (data h2)) < 2"
        then have "Peek h2 = Inr (Inl ErrEmptyQueue, h2)" by (simp add: Peek_eq)
        with assms nc m1 pk F2 show False
          by (auto simp: DelayQueue_Dequeue_iter_def Let_def h1_def[symmetric] h2_def[symmetric]
              split: sum.splits prod.splits wake.splits option.splits if_splits)
      qed
      define val2 where "val2 = elems (data h2) ! 1"
      have pk2: "Peek h2 = Inr (Inr val2, h2)" using l2 by (simp add: Peek_eq val2_def)
      from assms nc m1 pk F2 pk2 obtain m3 where
        tf: "wake ob = TimerFired" and
        pos: "\<not> delays_timer ob val2 > 0" and
        dab: "dequeue_and_broadcast grow (delays_timer ob) (d\<lparr>q := h2, mutex := m3\<rparr>)
                = Inr (Return (Inr v), d')"
        by (auto simp: DelayQueue_Dequeue_iter_def Let_def h1_def[symmetric] h2_def[symmetric]
            split: sum.splits prod.splits wake.splits option.splits if_splits)
      from dequeue_and_broadcast_root[OF dab]
      have r: "Peek h2 = Inr (Inr v, h2)"
        "Dequeue grow (h2\<lparr>compare := delay_cmp (delays_timer ob)\<rparr>) = Inr (Inr v, q d')" by simp_all
      with pk2 have "v = val2" by simp
      with F2 pk tf pos r show ?thesis by auto
    qed
  qed
  then show ?thesis .
qed


lemma Dequeue_iter_others:
  assumes "DelayQueue_Dequeue_iter grow ob d = Inr (st, d')"
    and "\<forall>v. st \<noteq> Return (Inr v)"
  shows "q d' = q d \<or> q d' = after_others (others ob) (q d) \<or>
         q d' = after_others (others_timer ob) (after_others (others ob) (q d))"
proof -
  define h1 where "h1 = after_others (others ob) (q d)"
  define h2 where "h2 = after_others (others_timer ob) h1"
  have l: "\<And>m h. \<not> length (elems (data h)) < 2 \<Longrightarrow> 2 \<le> length (elems (data (q (d\<lparr>q := h, mutex := m\<rparr>))))"
    by simp
  have "q d' = q d \<or> q d' = h1 \<or> q d' = h2"
  proof (cases "length (elems (data h1)) < 2")
    case True
    with assms show ?thesis
      by (auto simp: DelayQueue_Dequeue_iter_def Peek_eq Let_def h1_def[symmetric]
          split: sum.splits prod.splits if_splits option.splits)
  next
    case F1: False
    show ?thesis
    proof (cases "length (elems (data h2)) < 2")
      case True
      with assms F1 show ?thesis
        by (auto simp: DelayQueue_Dequeue_iter_def Peek_eq Let_def h1_def[symmetric] h2_def[symmetric]
            dest!: dequeue_and_broadcast_value[OF _ l[OF F1]]
            split: sum.splits prod.splits if_splits option.splits wake.splits)
    next
      case F2: False
      with assms F1 show ?thesis
        by (auto simp: DelayQueue_Dequeue_iter_def Peek_eq Let_def h1_def[symmetric] h2_def[symmetric]
            dest!: dequeue_and_broadcast_value[OF _ l[OF F1]] dequeue_and_broadcast_value[OF _ l[OF F2]]
            split: sum.splits prod.splits if_splits option.splits wake.splits)
    qed
  qed
  then show ?thesis by (simp add: h1_def h2_def)
qed

lemma Dequeue_iter_error:
  assumes "DelayQueue_Dequeue_iter grow ob d = Inr (Return (Inl e), d')"
  shows "e = Cancelled"
proof -
  define h1 where "h1 = after_others (others ob) (q d)"
  define h2 where "h2 = after_others (others_timer ob) h1"
  have l: "\<And>m h. \<not> length (elems (data h)) < 2 \<Longrightarrow> 2 \<le> length (elems (data (q (d\<lparr>q := h, mutex := m\<rparr>))))"
    by simp
  show ?thesis
  proof (cases "length (elems (data h1)) < 2")
    case True
    with assms show ?thesis
      by (auto simp: DelayQueue_Dequeue_iter_def Peek_eq Let_def h1_def[symmetric]
          split: sum.splits prod.splits if_splits option.splits)
  next
    case F1: False
    show ?thesis
    proof (cases "length (elems (data h2)) < 2")
      case True
      with assms F1 show ?thesis
        by (auto simp: DelayQueue_Dequeue_iter_def Peek_eq Let_def h1_def[symmetric] h2_def[symmetric]
            dest!: dequeue_and_broadcast_value[OF _ l[OF F1]]
            split: sum.splits prod.splits if_splits option.splits wake.splits)
    next
      case F2: False
      with assms F1 show ?thesis
        by (auto simp: DelayQueue_Dequeue_iter_def Peek_eq Let_def h1_def[symmetric] h2_def[symmetric]
            dest!: dequeue_and_broadcast_value[OF _ l[OF F1]] dequeue_and_broadcast_value[OF _ l[OF F2]]
            split: sum.splits prod.splits if_splits option.splits wake.splits)
    qed
  qed
qed


lemma apply_all_append: "apply_all (fs @ gs) s = apply_all gs (apply_all fs s)"
  by (induction fs arbitrary: s) simp_all

lemma apply_all_alone: "\<forall>f\<in>set fs. f = (\<lambda>s. s) \<Longrightarrow> apply_all fs s = s"
  by (induction fs arbitrary: s) simp_all

lemma after_others_apply_all:
  "after_others (apply_all gs) (after_others (apply_all fs) p) = after_others (apply_all (fs @ gs)) p"
  by (simp add: after_others_def apply_all_append)

lemma interference_Cons:
  "interference (ob # obs) = [others ob, others_timer ob] @ interference obs"
  by (simp add: interference_def)

lemma Dequeue_iter_others_list:
  assumes "DelayQueue_Dequeue_iter grow ob d = Inr (st, d')"
    and "\<forall>v. st \<noteq> Return (Inr v)"
  shows "\<exists>fs. subseq fs [others ob, others_timer ob] \<and> q d' = after_others (apply_all fs) (q d)"
proof -
  from Dequeue_iter_others[OF assms]
  consider "q d' = q d" | "q d' = after_others (others ob) (q d)"
    | "q d' = after_others (others_timer ob) (after_others (others ob) (q d))" by blast
  then show ?thesis
  proof cases
    case 1
    have "subseq [] [others ob, others_timer ob]" by simp
    moreover have "q d' = after_others (apply_all []) (q d)" using 1 by (simp add: after_others_def)
    ultimately show ?thesis by blast
  next
    case 2
    have "subseq [others ob] [others ob, others_timer ob]" by simp
    moreover have "q d' = after_others (apply_all [others ob]) (q d)" using 2 by (simp add: after_others_def)
    ultimately show ?thesis by blast
  next
    case 3
    have "subseq [others ob, others_timer ob] [others ob, others_timer ob]" by simp
    moreover have "q d' = after_others (apply_all [others ob, others_timer ob]) (q d)"
      using 3 by (simp add: after_others_def)
    ultimately show ?thesis by blast
  qed
qed

lemma DelayQueue_Dequeue_others:
  "DelayQueue_Dequeue grow obs d = Inr (res, d') \<Longrightarrow> \<forall>v. res \<noteq> Some (Inr v) \<Longrightarrow>
     \<exists>fs. subseq fs (interference obs) \<and> q d' = after_others (apply_all fs) (q d)"
proof (induction obs arbitrary: d)
  case Nil
  have "subseq [] (interference [])" by simp
  moreover have "q d' = after_others (apply_all []) (q d)" using Nil by (simp add: after_others_def)
  ultimately show ?case by blast
next
  case (Cons ob obs)
  from Cons.prems(1) obtain st d1 where it: "DelayQueue_Dequeue_iter grow ob d = Inr (st, d1)"
    by (auto split: sum.splits)
  have emb: "\<exists>fs. subseq fs (interference (ob # obs)) \<and> q d' = after_others (apply_all fs) (q d)"
    if "\<forall>v. st \<noteq> Return (Inr v)"
      and "\<exists>gs. subseq gs (interference obs) \<and> q d' = after_others (apply_all gs) (q d1)"
  proof -
    from Dequeue_iter_others_list[OF it that(1)] obtain fs where
      fs: "subseq fs [others ob, others_timer ob]" "q d1 = after_others (apply_all fs) (q d)" by blast
    from that(2) obtain gs where
      gs: "subseq gs (interference obs)" "q d' = after_others (apply_all gs) (q d1)" by blast
    from fs(1) gs(1) have "subseq (fs @ gs) (interference (ob # obs))"
      unfolding interference_Cons by (rule list_emb_append_mono)
    moreover from fs(2) gs(2) have "q d' = after_others (apply_all (fs @ gs)) (q d)"
      by (simp add: after_others_apply_all)
    ultimately show ?thesis by blast
  qed
  have stop: "\<exists>gs. subseq gs (interference obs) \<and> q d1 = after_others (apply_all gs) (q d1)"
  proof -
    have "subseq [] (interference obs)" by simp
    moreover have "q d1 = after_others (apply_all []) (q d1)" by (simp add: after_others_def)
    ultimately show ?thesis by blast
  qed
  show ?case
  proof (cases st)
    case (Return r)
    with it Cons.prems have "res = Some r" "d' = d1" by simp_all
    with Cons.prems(2) Return have "\<forall>v. st \<noteq> Return (Inr v)" by auto
    from emb[OF this] stop \<open>d' = d1\<close> show ?thesis by simp
  next
    case Continue
    with it Cons.prems have "DelayQueue_Dequeue grow obs d1 = Inr (res, d')" by simp
    from Cons.IH[OF this Cons.prems(2)] emb Continue show ?thesis by simp
  next
    case Blocked
    with it Cons.prems have "d' = d1" by simp
    with emb stop Blocked show ?thesis by simp
  qed
qed

lemma in_interference:
  "f \<in> set (interference obs) \<Longrightarrow> \<exists>ob\<in>set obs. f = others ob \<or> f = others_timer ob"
  by (induction obs) (auto simp: interference_def)

lemma interference_alone:
  assumes "\<forall>ob\<in>set obs. others ob = (\<lambda>s. s) \<and> others_timer ob = (\<lambda>s. s)"
    and "subseq fs (interference obs)"
  shows "after_others (apply_all fs) p = p"
proof -
  have "f = (\<lambda>s. s)" if "f \<in> set fs" for f
  proof -
    from assms(2) that have "f \<in> set (interference obs)" by (auto elim: list_emb_set)
    from in_interference[OF this] assms(1) show ?thesis by metis
  qed
  then have "\<forall>f\<in>set fs. f = (\<lambda>s. s)" by blast
  then have "\<And>s. apply_all fs s = s" by (rule apply_all_alone)
  then show ?thesis by (simp add: after_others_def)
qed

lemma DelayQueue_Dequeue_value:
  "DelayQueue_Dequeue grow obs d = Inr (Some (Inr v), d') \<Longrightarrow>
     \<exists>ob\<in>set obs. \<exists>d1. DelayQueue_Dequeue_iter grow ob d1 = Inr (Return (Inr v), d')"
proof (induction obs arbitrary: d)
  case Nil
  then show ?case by simp
next
  case (Cons ob obs)
  from Cons.prems(1) obtain st d1 where it: "DelayQueue_Dequeue_iter grow ob d = Inr (st, d1)"
    by (auto split: sum.splits)
  show ?case
  proof (cases st)
    case (Return r)
    with it Cons.prems have "r = Inr v" "d' = d1" by simp_all
    with it Return have "DelayQueue_Dequeue_iter grow ob d = Inr (Return (Inr v), d')" by simp
    then show ?thesis by auto
  next
    case Continue
    with it Cons.prems have "DelayQueue_Dequeue grow obs d1 = Inr (Some (Inr v), d')" by simp
    from Cons.IH[OF this] show ?thesis by auto
  next
    case Blocked
    with it Cons.prems show ?thesis by simp
  qed
qed

lemma DelayQueue_Dequeue_error:
  "DelayQueue_Dequeue grow obs d = Inr (Some (Inl e), d') \<Longrightarrow> e = Cancelled"
proof (induction obs arbitrary: d)
  case Nil
  then show ?case by simp
next
  case (Cons ob obs)
  from Cons.prems(1) obtain st d1 where it: "DelayQueue_Dequeue_iter grow ob d = Inr (st, d1)"
    by (auto split: sum.splits)
  show ?case
  proof (cases st)
    case (Return r)
    with it Cons.prems have "DelayQueue_Dequeue_iter grow ob d = Inr (Return (Inl e), d1)" by simp
    then show ?thesis by (rule Dequeue_iter_error)
  next
    case Continue
    with it Cons.prems have "DelayQueue_Dequeue grow obs d1 = Inr (Some (Inl e), d')" by simp
    then show ?thesis by (rule Cons.IH)
  next
    case Blocked
    with it Cons.prems show ?thesis by simp
  qed
qed

lemma Enqueue_iter_others:
  assumes "DelayQueue_Enqueue_iter grow ob d t = Inr (st, d')" and "st \<noteq> Return None"
  shows "capacity (q d') = capacity (q d) \<and>
         (data (q d') = data (q d) \<or> data (q d') = others ob (data (q d)))"
proof -
  define p0 where "p0 = (after_others (others ob) (q d))\<lparr>compare := delay_cmp (delays ob)\<rparr>"
  from Enqueue_no_panic[of grow p0 t]
  obtain e p' where e: "Enqueue grow p0 t = Inr (e, p')"
    "e = Some ErrOutOfCapacity \<and> p' = p0 \<or> e = None"
    by blast
  with assms show ?thesis
    by (auto simp: DelayQueue_Enqueue_iter_def p0_def[symmetric]
        split: if_splits option.splits sum.splits prod.splits)
      (simp_all add: p0_def)
qed

lemma Enqueue_iter_error:
  assumes "DelayQueue_Enqueue_iter grow ob d t = Inr (Return (Some e), d')"
  shows "e = Cancelled"
proof -
  define p0 where "p0 = (after_others (others ob) (q d))\<lparr>compare := delay_cmp (delays ob)\<rparr>"
  from Enqueue_no_panic[of grow p0 t]
  obtain e0 p' where e: "Enqueue grow p0 t = Inr (e0, p')"
    "e0 = Some ErrOutOfCapacity \<or> e0 = None"
    by blast
  with assms show ?thesis
    by (auto simp: DelayQueue_Enqueue_iter_def p0_def[symmetric]
        split: if_splits option.splits sum.splits prod.splits)
qed

lemma Enqueue_iter_others_list:
  assumes "DelayQueue_Enqueue_iter grow ob d t = Inr (st, d')" and "st \<noteq> Return None"
  shows "\<exists>fs. subseq fs [others ob, others_timer ob] \<and> data (q d') = apply_all fs (data (q d)) \<and>
              capacity (q d') = capacity (q d)"
proof -
  from Enqueue_iter_others[OF assms]
  have c: "capacity (q d') = capacity (q d)"
    and "data (q d') = data (q d) \<or> data (q d') = others ob (data (q d))" by simp_all
  then consider "data (q d') = apply_all [] (data (q d))"
    | "data (q d') = apply_all [others ob] (data (q d))" by auto
  then show ?thesis
  proof cases
    case 1
    moreover have "subseq [] [others ob, others_timer ob]" by simp
    ultimately show ?thesis using c by blast
  next
    case 2
    moreover have "subseq [others ob] [others ob, others_timer ob]" by simp
    ultimately show ?thesis using c by blast
  qed
qed

lemma DelayQueue_Enqueue_others:
  "DelayQueue_Enqueue grow obs d t = Inr (res, d') \<Longrightarrow> res \<noteq> Some None \<Longrightarrow>
     \<exists>fs. subseq fs (interference obs) \<and> data (q d') = apply_all fs (data (q d)) \<and>
          capacity (q d') = capacity (q d)"
proof (induction obs arbitrary: d)
  case Nil
  have "subseq [] (interference [])" by simp
  moreover have "data (q d') = apply_all [] (data (q d))" "capacity (q d') = capacity (q d)"
    using Nil by simp_all
  ultimately show ?case by blast
next
  case (Cons ob obs)
  from Cons.prems(1) obtain st d1 where it: "DelayQueue_Enqueue_iter grow ob d t = Inr (st, d1)"
    by (auto split: sum.splits)
  have emb: "\<exists>fs. subseq fs (interference (ob # obs)) \<and> data (q d') = apply_all fs (data (q d)) \<and>
          capacity (q d') = capacity (q d)"
    if "st \<noteq> Return None"
      and "\<exists>gs. subseq gs (interference obs) \<and> data (q d') = apply_all gs (data (q d1)) \<and>
          capacity (q d') = capacity (q d1)"
  proof -
    from Enqueue_iter_others_list[OF it that(1)] obtain fs where
      fs: "subseq fs [others ob, others_timer ob]" "data (q d1) = apply_all fs (data (q d))"
        "capacity (q d1) = capacity (q d)" by blast
    from that(2) obtain gs where
      gs: "subseq gs (interference obs)" "data (q d') = apply_all gs (data (q d1))"
        "capacity (q d') = capacity (q d1)" by blast
    from fs(1) gs(1) have "subseq (fs @ gs) (interference (ob # obs))"
      unfolding interference_Cons by (rule list_emb_append_mono)
    moreover from fs gs have "data (q d') = apply_all (fs @ gs) (data (q d))"
      "capacity (q d') = capacity (q d)"
      by (simp_all add: apply_all_append)
    ultimately show ?thesis by blast
  qed
  have stop: "\<exists>gs. subseq gs (interference obs) \<and> data (q d1) = apply_all gs (data (q d1)) \<and>
          capacity (q d1) = capacity (q d1)"
  proof -
    have "subseq [] (interference obs)" by simp
    moreover have "data (q d1) = apply_all [] (data (q d1))" by simp
    ultimately show ?thesis by blast
  qed
  show ?case
  proof (cases st)
    case (Return r)
    with it Cons.prems have "st \<noteq> Return None" "d' = d1" by auto
    with emb stop show ?thesis by simp
  next
    case Continue
    with it Cons.prems have "DelayQueue_Enqueue grow obs d1 t = Inr (res, d')" by simp
    from Cons.IH[OF this Cons.prems(2)] emb Continue show ?thesis by simp
  next
    case Blocked
    with it Cons.prems have "d' = d1" by simp
    with emb stop Blocked show ?thesis by simp
  qed
qed

lemma apply_all_subseq_alone:
  assumes "\<forall>ob\<in>set obs. others ob = (\<lambda>s. s) \<and> others_timer ob = (\<lambda>s. s)"
    and "subseq fs (interference obs)"
  shows "apply_all fs s = s"
proof -
  have "f = (\<lambda>s. s)" if "f \<in> set fs" for f
  proof -
    from assms(2) that have "f \<in> set (interference obs)" by (auto elim: list_emb_set)
    from in_interference[OF this] assms(1) show ?thesis by metis
  qed
  then have "\<forall>f\<in>set fs. f = (\<lambda>s. s)" by blast
  then show ?thesis by (rule apply_all_alone)
qed

lemma Dequeue_iter_cancelled_waiting:
  assumes "\<not> ctx_done ob" and "\<not> locked (mutex d)"
    and "\<forall>x\<in>set (held (after_others (others ob) (q d))). 0 < delays ob x"
    and "wake ob = CtxDone" and "ctx_wins ob"
  shows "\<exists>d'. DelayQueue_Dequeue_iter grow ob d = Inr (Return (Inl Cancelled), d') \<and>
           q d' = after_others (others ob) (q d)"
proof -
  define h1 where "h1 = after_others (others ob) (q d)"
  show ?thesis unfolding h1_def[symmetric]
  proof (cases "length (elems (data h1)) < 2")
    case True
    with assms show "\<exists>d'. DelayQueue_Dequeue_iter grow ob d = Inr (Return (Inl Cancelled), d') \<and> q d' = h1"
      by (simp add: DelayQueue_Dequeue_iter_def lock_def Peek_eq signalCh_def unlock_def Let_def
          h1_def[symmetric])
  next
    case False
    then have "elems (data h1) ! 1 = held h1 ! 0" "0 < length (held h1)"
      by (simp_all add: held_def nth_tl)
    then have "elems (data h1) ! 1 \<in> set (held h1)" by (metis nth_mem)
    with assms(3) have "0 < delays ob (elems (data h1) ! 1)" unfolding h1_def[symmetric] by blast
    with False assms show "\<exists>d'. DelayQueue_Dequeue_iter grow ob d = Inr (Return (Inl Cancelled), d') \<and> q d' = h1"
      by (simp add: DelayQueue_Dequeue_iter_def lock_def Peek_eq signalCh_def unlock_def Let_def
          h1_def[symmetric])
  qed
qed

lemma Enqueue_iter_cancelled_waiting:
  assumes "\<not> ctx_done ob" and "\<not> locked (mutex d)" and "isFull (after_others (others ob) (q d))"
    and "ctx_wins ob"
  shows "\<exists>d'. DelayQueue_Enqueue_iter grow ob d t = Inr (Return (Some Cancelled), d') \<and>
           data (q d') = others ob (data (q d)) \<and> capacity (q d') = capacity (q d)"
proof -
  define p0 where "p0 = (after_others (others ob) (q d))\<lparr>compare := delay_cmp (delays ob)\<rparr>"
  have "isFull p0" using assms(3) by (simp add: isFull_def p0_def)
  then have "Enqueue grow p0 t = Inr (Some ErrOutOfCapacity, p0)"
    by (rule Enqueue_full)
  with assms show ?thesis
    by (simp add: DelayQueue_Enqueue_iter_def lock_def signalCh_def unlock_def Let_def p0_def[symmetric])
      (simp add: p0_def)
qed

lemmas delay_run_defs =
  DelayQueue_Dequeue_iter_def DelayQueue_Enqueue_iter_def dequeue_and_broadcast_def
  delay_queue_of_def obs_at_def obs_cancelled_def obs_meanwhile_def put_heap_def after_others_def
  lock_def unlock_def signalCh_def broadcast_def
  make_chan_def close_chan_def Peek_eq Let_def Dequeue_def Enqueue_def isEmpty_def isFull_def
  removeRoot_def index_def assign_def shrinkIfNecessary_def IsBoundless_def Shrink_def
  calCapacity_def heapify.simps siftUp.simps append_go_def less_at_def swap_at_def delay_cmp_def

lemma run_timer_dequeue:
  "\<exists>d'. DelayQueue_Dequeue_iter grow_double (obs_at 3 5 TimerFired False) (delay_queue_of 0 64 [0, 5])
          = Inr (Return (Inr 5), d')"
  by (simp add: delay_run_defs)

text \<open>
  While the call waits for the timer of the element 5, another goroutine inserts the
  element 4; the call then removes 4, which is ready, and not 5, which is not.
\<close>

lemma run_meanwhile_inserted:
  "\<exists>d'. DelayQueue_Dequeue_iter grow_double (obs_meanwhile 3 4 [0, 4, 5]) (delay_queue_of 0 64 [0, 5])
          = Inr (Return (Inr 4), d') \<and> elems (data (q d')) = [0, 5]"
  by (simp add: delay_run_defs)

text \<open>
  While the call waits for the timer, another goroutine removes the only element: the
  second \<open>Peek\<close> fails and the call goes round its loop again.
\<close>

lemma run_meanwhile_removed:
  "\<exists>d'. DelayQueue_Dequeue_iter grow_double (obs_meanwhile 3 5 [0]) (delay_queue_of 0 64 [0, 5])
          = Inr (Continue, d') \<and> elems (data (q d')) = [0]"
  by (simp add: delay_run_defs)

lemma run_dequeue_cancelled:
  "\<exists>d'. DelayQueue_Dequeue grow_double [obs_at 1 1 Signalled False, obs_at 1 1 CtxDone True]
          (delay_queue_of 1 2 [0, 5]) = Inr (Some (Inl Cancelled), d')"
  by (simp add: delay_run_defs)

lemma run_enqueue_cancelled:
  "\<exists>d'. DelayQueue_Enqueue grow_double [obs_at 1 1 Signalled False, obs_at 1 1 CtxDone True]
          (delay_queue_of 1 2 [0, 5]) 7 = Inr (Some (Some Cancelled), d')"
  by (simp add: delay_run_defs)

text \<open>
  Claim C2. Whenever \<open>Dequeue\<close> of the delay queue returns a value, the priority queue
  has removed that value in a critical section of the call in which the value was the
  root of the heap as the other goroutines had left it and \<open>Delay()\<close> had just returned a
  value \<open>\<le> 0\<close> for it: either the critical section at the head of an iteration, or the one
  after the timer fired, in which the head is read again (the head read before the wait
  was not ready). First for one iteration of the loop, then for the whole call; an
  element whose delay is read as positive in every critical section is never returned.
\<close>

theorem DelayQueue_Dequeue_ready:
  "(DelayQueue_Dequeue_iter grow ob d = Inr (Return (Inr v), d') \<longrightarrow>
      (let h1 = after_others (others ob) (q d); h2 = after_others (others_timer ob) h1 in
       (delays ob v \<le> 0 \<and> Peek h1 = Inr (Inr v, h1) \<and>
          Dequeue grow (h1\<lparr>compare := delay_cmp (delays ob)\<rparr>) = Inr (Inr v, q d'))
       \<or> (wake ob = TimerFired \<and> delays_timer ob v \<le> 0 \<and> Peek h2 = Inr (Inr v, h2) \<and>
          Dequeue grow (h2\<lparr>compare := delay_cmp (delays_timer ob)\<rparr>) = Inr (Inr v, q d') \<and>
          (\<exists>w. Peek h1 = Inr (Inr w, h1) \<and> 0 < delays ob w))))
   \<and> (DelayQueue_Dequeue grow obs d = Inr (Some (Inr v), d'') \<longrightarrow>
        (\<exists>ob\<in>set obs. \<exists>d1. DelayQueue_Dequeue_iter grow ob d1 = Inr (Return (Inr v), d'') \<and>
           (let h1 = after_others (others ob) (q d1); h2 = after_others (others_timer ob) h1 in
            (delays ob v \<le> 0 \<and> Peek h1 = Inr (Inr v, h1) \<and>
               Dequeue grow (h1\<lparr>compare := delay_cmp (delays ob)\<rparr>) = Inr (Inr v, q d''))
            \<or> (wake ob = TimerFired \<and> delays_timer ob v \<le> 0 \<and> Peek h2 = Inr (Inr v, h2) \<and>
               Dequeue grow (h2\<lparr>compare := delay_cmp (delays_timer ob)\<rparr>) = Inr (Inr v, q d'')))))
   \<and> ((\<forall>ob\<in>set obs. 0 < delays ob v \<and> 0 < delays_timer ob v) \<longrightarrow>
        DelayQueue_Dequeue grow obs d \<noteq> Inr (Some (Inr v), d''))"
proof (intro conjI impI)
  assume "DelayQueue_Dequeue_iter grow ob d = Inr (Return (Inr v), d')"
  from Dequeue_iter_value[OF this]
  show "let h1 = after_others (others ob) (q d); h2 = after_others (others_timer ob) h1 in
       (delays ob v \<le> 0 \<and> Peek h1 = Inr (Inr v, h1) \<and>
          Dequeue grow (h1\<lparr>compare := delay_cmp (delays ob)\<rparr>) = Inr (Inr v, q d'))
       \<or> (wake ob = TimerFired \<and> delays_timer ob v \<le> 0 \<and> Peek h2 = Inr (Inr v, h2) \<and>
          Dequeue grow (h2\<lparr>compare := delay_cmp (delays_timer ob)\<rparr>) = Inr (Inr v, q d') \<and>
          (\<exists>w. Peek h1 = Inr (Inr w, h1) \<and> 0 < delays ob w))"
    unfolding Let_def .
next
  assume "DelayQueue_Dequeue grow obs d = Inr (Some (Inr v), d'')"
  from DelayQueue_Dequeue_value[OF this] obtain ob d1 where
    ob: "ob \<in> set obs" and it: "DelayQueue_Dequeue_iter grow ob d1 = Inr (Return (Inr v), d'')"
    by blast
  from Dequeue_iter_value[OF it]
  have "let h1 = after_others (others ob) (q d1); h2 = after_others (others_timer ob) h1 in
            (delays ob v \<le> 0 \<and> Peek h1 = Inr (Inr v, h1) \<and>
               Dequeue grow (h1\<lparr>compare := delay_cmp (delays ob)\<rparr>) = Inr (Inr v, q d''))
            \<or> (wake ob = TimerFired \<and> delays_timer ob v \<le> 0 \<and> Peek h2 = Inr (Inr v, h2) \<and>
               Dequeue grow (h2\<lparr>compare := delay_cmp (delays_timer ob)\<rparr>) = Inr (Inr v, q d''))"
    unfolding Let_def by blast
  with ob it
  show "\<exists>ob\<in>set obs. \<exists>d1. DelayQueue_Dequeue_iter grow ob d1 = Inr (Return (Inr v), d'') \<and>
           (let h1 = after_others (others ob) (q d1); h2 = after_others (others_timer ob) h1 in
            (delays ob v \<le> 0 \<and> Peek h1 = Inr (Inr v, h1) \<and>
               Dequeue grow (h1\<lparr>compare := delay_cmp (delays ob)\<rparr>) = Inr (Inr v, q d''))
            \<or> (wake ob = TimerFired \<and> delays_timer ob v \<le> 0 \<and> Peek h2 = Inr (Inr v, h2) \<and>
               Dequeue grow (h2\<lparr>compare := delay_cmp (delays_timer ob)\<rparr>) = Inr (Inr v, q d'')))"
    by blast
next
  assume np: "\<forall>ob\<in>set obs. 0 < delays ob v \<and> 0 < delays_timer ob v"
  show "DelayQueue_Dequeue grow obs d \<noteq> Inr (Some (Inr v), d'')"
  proof
    assume "DelayQueue_Dequeue grow obs d = Inr (Some (Inr v), d'')"
    from DelayQueue_Dequeue_value[OF this] obtain ob d1 where
      ob: "ob \<in> set obs" and it: "DelayQueue_Dequeue_iter grow ob d1 = Inr (Return (Inr v), d'')"
      by blast
    from Dequeue_iter_value[OF it] have "delays ob v \<le> 0 \<or> delays_timer ob v \<le> 0" by blast
    with np ob show False by fastforce
  qed
qed

text \<open>
  The theorem on the queue holding the element that is ready at time 5, read at time 3,
  when it is not ready. While the call waits for the timer another goroutine inserts the
  element that is ready at time 4, and the timer fires at time 4: the head is read
  again, it is 4, which is ready and is removed; 5 is still not ready and stays.
\<close>

theorem DelayQueue_Dequeue_ready_witness:
  "\<exists>d'. DelayQueue_Dequeue_iter grow_double (obs_meanwhile 3 4 [0, 4, 5]) (delay_queue_of 0 64 [0, 5])
          = Inr (Return (Inr 4), d')
        \<and> DelayQueue_Dequeue grow_double [obs_meanwhile 3 4 [0, 4, 5]] (delay_queue_of 0 64 [0, 5])
          = Inr (Some (Inr 4), d')
        \<and> elems (data (q d')) = [0, 5]
        \<and> 0 < delays (obs_meanwhile 3 4 [0, 4, 5]) 4
        \<and> 0 < delays_timer (obs_meanwhile 3 4 [0, 4, 5]) 5
        \<and> wake (obs_meanwhile 3 4 [0, 4, 5]) = TimerFired
        \<and> delays_timer (obs_meanwhile 3 4 [0, 4, 5]) 4 \<le> 0
        \<and> Peek (after_others (others_timer (obs_meanwhile 3 4 [0, 4, 5]))
                  (after_others (others (obs_meanwhile 3 4 [0, 4, 5])) (q (delay_queue_of 0 64 [0, 5]))))
            = Inr (Inr 4, after_others (others_timer (obs_meanwhile 3 4 [0, 4, 5]))
                  (after_others (others (obs_meanwhile 3 4 [0, 4, 5])) (q (delay_queue_of 0 64 [0, 5]))))
        \<and> (\<exists>ob\<in>set [obs_meanwhile 3 4 [0, 4, 5]]. \<exists>d1.
              DelayQueue_Dequeue_iter grow_double ob d1 = Inr (Return (Inr 4), d')
              \<and> (delays ob 4 \<le> 0 \<or> wake ob = TimerFired \<and> delays_timer ob 4 \<le> 0))
        \<and> (\<forall>ob\<in>set [obs_at 1 2 TimerFired False]. 0 < delays ob 5 \<and> 0 < delays_timer ob 5)
        \<and> DelayQueue_Dequeue grow_double [obs_at 1 2 TimerFired False] (delay_queue_of 0 64 [0, 5])
            \<noteq> Inr (Some (Inr 5), d')"
proof -
  from run_meanwhile_inserted obtain d' where
    it: "DelayQueue_Dequeue_iter grow_double (obs_meanwhile 3 4 [0, 4, 5]) (delay_queue_of 0 64 [0, 5])
          = Inr (Return (Inr 4), d')" and el: "elems (data (q d')) = [0, 5]" by blast
  then have lp: "DelayQueue_Dequeue grow_double [obs_meanwhile 3 4 [0, 4, 5]] (delay_queue_of 0 64 [0, 5])
          = Inr (Some (Inr 4), d')" by simp
  have pos: "0 < delays (obs_meanwhile 3 4 [0, 4, 5]) 4" "0 < delays_timer (obs_meanwhile 3 4 [0, 4, 5]) 5"
    by (simp_all add: obs_meanwhile_def obs_at_def)
  have np: "\<forall>ob\<in>set [obs_at 1 2 TimerFired False]. 0 < delays ob 5 \<and> 0 < delays_timer ob 5"
    by (simp add: obs_at_def)
  note T = DelayQueue_Dequeue_ready[of grow_double "obs_meanwhile 3 4 [0, 4, 5]" "delay_queue_of 0 64 [0, 5]"
      4 d' "[obs_meanwhile 3 4 [0, 4, 5]]" d']
  note U = DelayQueue_Dequeue_ready[of grow_double _ "delay_queue_of 0 64 [0, 5]"
      5 _ "[obs_at 1 2 TimerFired False]" d']
  from T it pos(1)
  have a: "wake (obs_meanwhile 3 4 [0, 4, 5]) = TimerFired"
    "delays_timer (obs_meanwhile 3 4 [0, 4, 5]) 4 \<le> 0"
    "Peek (after_others (others_timer (obs_meanwhile 3 4 [0, 4, 5]))
                  (after_others (others (obs_meanwhile 3 4 [0, 4, 5])) (q (delay_queue_of 0 64 [0, 5]))))
            = Inr (Inr 4, after_others (others_timer (obs_meanwhile 3 4 [0, 4, 5]))
                  (after_others (others (obs_meanwhile 3 4 [0, 4, 5])) (q (delay_queue_of 0 64 [0, 5]))))"
    unfolding Let_def by auto
  from T lp have c: "\<exists>ob\<in>set [obs_meanwhile 3 4 [0, 4, 5]]. \<exists>d1.
              DelayQueue_Dequeue_iter grow_double ob d1 = Inr (Return (Inr 4), d')
              \<and> (delays ob 4 \<le> 0 \<or> wake ob = TimerFired \<and> delays_timer ob 4 \<le> 0)"
    unfolding Let_def by blast
  from U np have b: "DelayQueue_Dequeue grow_double [obs_at 1 2 TimerFired False] (delay_queue_of 0 64 [0, 5])
            \<noteq> Inr (Some (Inr 5), d')" by blast
  from it lp el pos a c np b show ?thesis by blast
qed

lemma DelayQueue_Dequeue_value_alone:
  "DelayQueue_Dequeue grow obs d = Inr (Some (Inr v), d') \<Longrightarrow>
   \<forall>ob\<in>set obs. others ob = (\<lambda>s. s) \<and> others_timer ob = (\<lambda>s. s) \<Longrightarrow>
     Peek (q d) = Inr (Inr v, q d) \<and>
     (\<exists>ob\<in>set obs. delays ob v \<le> 0 \<or> wake ob = TimerFired \<and> delays_timer ob v \<le> 0)"
proof (induction obs arbitrary: d)
  case Nil
  then show ?case by simp
next
  case (Cons ob obs)
  from Cons.prems(2) have al: "others ob = (\<lambda>s. s)" "others_timer ob = (\<lambda>s. s)"
    and rest: "\<forall>ob\<in>set obs. others ob = (\<lambda>s. s) \<and> others_timer ob = (\<lambda>s. s)" by simp_all
  from Cons.prems(1) obtain st d1 where it: "DelayQueue_Dequeue_iter grow ob d = Inr (st, d1)"
    by (auto split: sum.splits)
  show ?case
  proof (cases st)
    case (Return r)
    with it Cons.prems have "r = Inr v" "d' = d1" by simp_all
    with it Return have "DelayQueue_Dequeue_iter grow ob d = Inr (Return (Inr v), d1)" by simp
    from Dequeue_iter_value[OF this] al show ?thesis by auto
  next
    case Continue
    with it Cons.prems have "DelayQueue_Dequeue grow obs d1 = Inr (Some (Inr v), d')" by simp
    from Cons.IH[OF this rest] have "Peek (q d1) = Inr (Inr v, q d1)"
      "\<exists>ob\<in>set obs. delays ob v \<le> 0 \<or> wake ob = TimerFired \<and> delays_timer ob v \<le> 0" by simp_all
    moreover from Dequeue_iter_others[OF it] Continue al have "q d1 = q d" by simp
    ultimately show ?thesis by auto
  next
    case Blocked
    with it Cons.prems show ?thesis by simp
  qed
qed

text \<open>
  While the call waits for the timer another goroutine removes the only element; the
  call goes round its loop, finds the queue empty, waits and is cancelled.
\<close>

lemma run_dequeue_cancelled_meanwhile:
  "\<exists>d'. DelayQueue_Dequeue grow_double [obs_meanwhile 3 5 [0], obs_at 5 5 CtxDone True]
          (delay_queue_of 0 64 [0, 5]) = Inr (Some (Inl Cancelled), d') \<and> elems (data (q d')) = [0]"
  by (simp add: delay_run_defs)

text \<open>
  Claim C6. A call of \<open>Dequeue\<close> that returns the cancellation error has written nothing
  to the priority queue: the queue it leaves is the one it started from, changed only by
  what the other goroutines did to it in the meantime, and is the very same queue when
  they did nothing. Likewise a call of \<open>Enqueue\<close> that returns the cancellation error has
  not inserted its element: capacity unchanged, and contents changed by the others only.
  A context that is done at the head of an iteration makes both calls return the
  cancellation error at once. As long as no element is ready, \<open>Dequeue\<close> returns nothing
  but the cancellation error; and a call that waits (for an element to become ready, or
  for space) and whose \<open>select\<close> takes the context's case returns the cancellation error,
  the heap being as the call found it.
\<close>

theorem DelayQueue_cancel_no_mutation:
  "(DelayQueue_Dequeue grow obs d = Inr (Some (Inl Cancelled), d') \<longrightarrow>
      (\<exists>fs. subseq fs (interference obs) \<and> q d' = after_others (apply_all fs) (q d))
      \<and> ((\<forall>ob\<in>set obs. others ob = (\<lambda>s. s) \<and> others_timer ob = (\<lambda>s. s)) \<longrightarrow> q d' = q d))
   \<and> (DelayQueue_Enqueue grow obs d t = Inr (Some (Some Cancelled), d'') \<longrightarrow>
        capacity (q d'') = capacity (q d)
        \<and> (\<exists>fs. subseq fs (interference obs) \<and> data (q d'') = apply_all fs (data (q d)))
        \<and> ((\<forall>ob\<in>set obs. others ob = (\<lambda>s. s) \<and> others_timer ob = (\<lambda>s. s)) \<longrightarrow>
              data (q d'') = data (q d)))
   \<and> (ctx_done ob \<longrightarrow>
        DelayQueue_Dequeue grow (ob # obs) d = Inr (Some (Inl Cancelled), d) \<and>
        DelayQueue_Enqueue grow (ob # obs) d t = Inr (Some (Some Cancelled), d))
   \<and> ((\<forall>ob\<in>set obs. \<forall>x. 0 < delays ob x \<and> 0 < delays_timer ob x) \<and>
        DelayQueue_Dequeue grow obs d = Inr (Some r, d3) \<longrightarrow> r = Inl Cancelled)
   \<and> ((\<forall>ob\<in>set obs. others ob = (\<lambda>s. s) \<and> others_timer ob = (\<lambda>s. s)) \<and>
       (\<forall>ob\<in>set obs. \<forall>x\<in>set (held (q d)). 0 < delays ob x \<and> 0 < delays_timer ob x) \<and>
        DelayQueue_Dequeue grow obs d = Inr (Some r, d3) \<longrightarrow> r = Inl Cancelled \<and> q d3 = q d)
   \<and> (\<not> ctx_done ow \<and> \<not> locked (mutex d) \<and>
        (\<forall>x\<in>set (held (after_others (others ow) (q d))). 0 < delays ow x) \<and>
        wake ow = CtxDone \<and> ctx_wins ow \<longrightarrow>
        (\<exists>d4. DelayQueue_Dequeue grow (ow # obs) d = Inr (Some (Inl Cancelled), d4) \<and>
           q d4 = after_others (others ow) (q d)))
   \<and> (\<not> ctx_done ow \<and> \<not> locked (mutex d) \<and> isFull (after_others (others ow) (q d)) \<and>
        ctx_wins ow \<longrightarrow>
        (\<exists>d5. DelayQueue_Enqueue grow (ow # obs) d t = Inr (Some (Some Cancelled), d5) \<and>
           data (q d5) = others ow (data (q d)) \<and> capacity (q d5) = capacity (q d)))"
proof -
  have c1: "(\<exists>fs. subseq fs (interference obs) \<and> q d' = after_others (apply_all fs) (q d))
      \<and> ((\<forall>ob\<in>set obs. others ob = (\<lambda>s. s) \<and> others_timer ob = (\<lambda>s. s)) \<longrightarrow> q d' = q d)"
    if "DelayQueue_Dequeue grow obs d = Inr (Some (Inl Cancelled), d')"
  proof -
    from DelayQueue_Dequeue_others[OF that] obtain fs where
      fs: "subseq fs (interference obs)" "q d' = after_others (apply_all fs) (q d)" by auto
    from fs interference_alone[of obs fs "q d"]
    have "(\<forall>ob\<in>set obs. others ob = (\<lambda>s. s) \<and> others_timer ob = (\<lambda>s. s)) \<longrightarrow> q d' = q d"
      by simp
    with fs show ?thesis by blast
  qed
  have c2: "capacity (q d'') = capacity (q d)
        \<and> (\<exists>fs. subseq fs (interference obs) \<and> data (q d'') = apply_all fs (data (q d)))
        \<and> ((\<forall>ob\<in>set obs. others ob = (\<lambda>s. s) \<and> others_timer ob = (\<lambda>s. s)) \<longrightarrow>
              data (q d'') = data (q d))"
    if "DelayQueue_Enqueue grow obs d t = Inr (Some (Some Cancelled), d'')"
  proof -
    from DelayQueue_Enqueue_others[OF that] obtain fs where
      fs: "subseq fs (interference obs)" "data (q d'') = apply_all fs (data (q d))"
      and c: "capacity (q d'') = capacity (q d)" by auto
    from fs apply_all_subseq_alone[of obs fs "data (q d)"]
    have "(\<forall>ob\<in>set obs. others ob = (\<lambda>s. s) \<and> others_timer ob = (\<lambda>s. s)) \<longrightarrow>
              data (q d'') = data (q d)"
      by simp
    with fs c show ?thesis by blast
  qed
  have c3: "DelayQueue_Dequeue grow (ob # obs) d = Inr (Some (Inl Cancelled), d) \<and>
        DelayQueue_Enqueue grow (ob # obs) d t = Inr (Some (Some Cancelled), d)"
    if "ctx_done ob"
    using that by (simp add: DelayQueue_Dequeue_iter_def DelayQueue_Enqueue_iter_def)
  have c4: "r = Inl Cancelled"
    if a: "(\<forall>ob\<in>set obs. \<forall>x. 0 < delays ob x \<and> 0 < delays_timer ob x) \<and>
        DelayQueue_Dequeue grow obs d = Inr (Some r, d3)"
  proof (cases r)
    case (Inl e)
    with a DelayQueue_Dequeue_error[of grow obs d e d3] show ?thesis by simp
  next
    case (Inr v)
    with a have "DelayQueue_Dequeue grow obs d = Inr (Some (Inr v), d3)" by simp
    from DelayQueue_Dequeue_value[OF this] obtain ob d1 where
      ob: "ob \<in> set obs" and it: "DelayQueue_Dequeue_iter grow ob d1 = Inr (Return (Inr v), d3)"
      by blast
    from Dequeue_iter_value[OF it] have "delays ob v \<le> 0 \<or> delays_timer ob v \<le> 0" by blast
    moreover from a ob have "0 < delays ob v \<and> 0 < delays_timer ob v" by blast
    ultimately have False by auto
    then show ?thesis ..
  qed
  have c5: "r = Inl Cancelled \<and> q d3 = q d"
    if a: "(\<forall>ob\<in>set obs. others ob = (\<lambda>s. s) \<and> others_timer ob = (\<lambda>s. s)) \<and>
       (\<forall>ob\<in>set obs. \<forall>x\<in>set (held (q d)). 0 < delays ob x \<and> 0 < delays_timer ob x) \<and>
        DelayQueue_Dequeue grow obs d = Inr (Some r, d3)"
  proof -
    from a have al: "\<forall>ob\<in>set obs. others ob = (\<lambda>s. s) \<and> others_timer ob = (\<lambda>s. s)" by simp
    have nv: "\<And>v. r \<noteq> Inr v"
    proof
      fix v assume "r = Inr v"
      with a have run: "DelayQueue_Dequeue grow obs d = Inr (Some (Inr v), d3)" by simp
      from DelayQueue_Dequeue_value_alone[OF run al] have pk: "Peek (q d) = Inr (Inr v, q d)"
        and rd: "\<exists>ob\<in>set obs. delays ob v \<le> 0 \<or> wake ob = TimerFired \<and> delays_timer ob v \<le> 0"
        by simp_all
      from pk have l: "\<not> length (elems (data (q d))) < 2" and v: "v = elems (data (q d)) ! 1"
        by (auto simp: Peek_eq split: if_splits)
      then have "v = held (q d) ! 0" "0 < length (held (q d))" by (simp_all add: held_def nth_tl)
      then have "v \<in> set (held (q d))" by (metis nth_mem)
      with a rd show False by fastforce
    qed
    then obtain e where e: "r = Inl e" by (cases r) auto
    with a DelayQueue_Dequeue_error[of grow obs d e d3] have "e = Cancelled" by simp
    with e have r: "r = Inl Cancelled" by simp
    from a nv DelayQueue_Dequeue_others[of grow obs d "Some r" d3] obtain fs where
      "subseq fs (interference obs)" "q d3 = after_others (apply_all fs) (q d)" by auto
    with interference_alone[OF al, of fs "q d"] have "q d3 = q d" by simp
    with r show ?thesis by simp
  qed
  have c6: "\<exists>d4. DelayQueue_Dequeue grow (ow # obs) d = Inr (Some (Inl Cancelled), d4) \<and>
           q d4 = after_others (others ow) (q d)"
    if a: "\<not> ctx_done ow \<and> \<not> locked (mutex d) \<and>
        (\<forall>x\<in>set (held (after_others (others ow) (q d))). 0 < delays ow x) \<and>
        wake ow = CtxDone \<and> ctx_wins ow"
  proof -
    from a obtain d4 where "DelayQueue_Dequeue_iter grow ow d = Inr (Return (Inl Cancelled), d4)"
      "q d4 = after_others (others ow) (q d)"
      using Dequeue_iter_cancelled_waiting[of ow d grow] by blast
    then show ?thesis by simp
  qed
  have c7: "\<exists>d5. DelayQueue_Enqueue grow (ow # obs) d t = Inr (Some (Some Cancelled), d5) \<and>
           data (q d5) = others ow (data (q d)) \<and> capacity (q d5) = capacity (q d)"
    if a: "\<not> ctx_done ow \<and> \<not> locked (mutex d) \<and> isFull (after_others (others ow) (q d)) \<and>
        ctx_wins ow"
  proof -
    from a obtain d5 where "DelayQueue_Enqueue_iter grow ow d t = Inr (Return (Some Cancelled), d5)"
      "data (q d5) = others ow (data (q d))" "capacity (q d5) = capacity (q d)"
      using Enqueue_iter_cancelled_waiting[of ow d grow t] by blast
    then show ?thesis by simp
  qed
  from c1 c2 c3 c4 c5 c6 c7 show ?thesis by blast
qed


lemma run_dequeue_cancelled_waiting:
  "\<exists>d'. DelayQueue_Dequeue grow_double [obs_waiting Signalled False, obs_waiting CtxDone True]
          (delay_queue_of 1 2 [0, 5]) = Inr (Some (Inl Cancelled), d')"
  by (simp add: delay_run_defs obs_waiting_def)

lemma run_enqueue_cancelled_waiting:
  "\<exists>d'. DelayQueue_Enqueue grow_double [obs_waiting Signalled False, obs_waiting CtxDone True]
          (delay_queue_of 1 2 [0, 5]) 7 = Inr (Some (Some Cancelled), d')"
  by (simp add: delay_run_defs obs_waiting_def)

text \<open>
  The theorem on the full queue bounded by 1 that holds the element 5, which is not
  ready: both calls wait once, are woken, wait again and are then cancelled, while the
  other goroutines leave the queue alone. And on the queue from which another goroutine
  removes the only element while \<open>Dequeue\<close> waits for the timer.
\<close>

theorem DelayQueue_cancel_no_mutation_witness:
  "\<exists>d' d'' dm.
     DelayQueue_Dequeue grow_double [obs_waiting Signalled False, obs_waiting CtxDone True]
        (delay_queue_of 1 2 [0, 5]) = Inr (Some (Inl Cancelled), d')
     \<and> q d' = q (delay_queue_of 1 2 [0, 5])
     \<and> DelayQueue_Enqueue grow_double [obs_waiting Signalled False, obs_waiting CtxDone True]
        (delay_queue_of 1 2 [0, 5]) 7 = Inr (Some (Some Cancelled), d'')
     \<and> data (q d'') = data (q (delay_queue_of 1 2 [0, 5]))
     \<and> capacity (q d'') = capacity (q (delay_queue_of 1 2 [0, 5]))
     \<and> (\<forall>ob\<in>set [obs_waiting Signalled False, obs_waiting CtxDone True].
          others ob = (\<lambda>s. s) \<and> others_timer ob = (\<lambda>s. s))
     \<and> ctx_done obs_cancelled
     \<and> DelayQueue_Dequeue grow_double
          (obs_cancelled # [obs_waiting Signalled False, obs_waiting CtxDone True])
          (delay_queue_of 1 2 [0, 5])
         = Inr (Some (Inl Cancelled), delay_queue_of 1 2 [0, 5])
     \<and> (\<forall>ob\<in>set [obs_waiting Signalled False, obs_waiting CtxDone True].
          \<forall>x. 0 < delays ob x \<and> 0 < delays_timer ob x)
     \<and> \<not> ctx_done (obs_waiting CtxDone True) \<and> \<not> locked (mutex (delay_queue_of 1 2 [0, 5]))
     \<and> isFull (after_others (others (obs_waiting CtxDone True)) (q (delay_queue_of 1 2 [0, 5])))
     \<and> wake (obs_waiting CtxDone True) = CtxDone \<and> ctx_wins (obs_waiting CtxDone True)
     \<and> (\<exists>d4. DelayQueue_Dequeue grow_double
            (obs_waiting CtxDone True # [obs_waiting Signalled False, obs_waiting CtxDone True])
            (delay_queue_of 1 2 [0, 5]) = Inr (Some (Inl Cancelled), d4)
          \<and> q d4 = after_others (others (obs_waiting CtxDone True)) (q (delay_queue_of 1 2 [0, 5])))
     \<and> (\<exists>d5. DelayQueue_Enqueue grow_double
            (obs_waiting CtxDone True # [obs_waiting Signalled False, obs_waiting CtxDone True])
            (delay_queue_of 1 2 [0, 5]) 7 = Inr (Some (Some Cancelled), d5)
          \<and> data (q d5) = others (obs_waiting CtxDone True) (data (q (delay_queue_of 1 2 [0, 5]))))
     \<and> DelayQueue_Dequeue grow_double [obs_meanwhile 3 5 [0], obs_at 5 5 CtxDone True]
          (delay_queue_of 0 64 [0, 5]) = Inr (Some (Inl Cancelled), dm)
     \<and> elems (data (q dm)) = [0]
     \<and> (\<exists>fs. subseq fs (interference [obs_meanwhile 3 5 [0], obs_at 5 5 CtxDone True]) \<and>
           q dm = after_others (apply_all fs) (q (delay_queue_of 0 64 [0, 5])))"
proof -
  from run_dequeue_cancelled_waiting obtain d' where
    r1: "DelayQueue_Dequeue grow_double [obs_waiting Signalled False, obs_waiting CtxDone True]
        (delay_queue_of 1 2 [0, 5]) = Inr (Some (Inl Cancelled), d')" by blast
  from run_enqueue_cancelled_waiting obtain d'' where
    r2: "DelayQueue_Enqueue grow_double [obs_waiting Signalled False, obs_waiting CtxDone True]
        (delay_queue_of 1 2 [0, 5]) 7 = Inr (Some (Some Cancelled), d'')" by blast
  from run_dequeue_cancelled_meanwhile obtain dm where
    r3: "DelayQueue_Dequeue grow_double [obs_meanwhile 3 5 [0], obs_at 5 5 CtxDone True]
          (delay_queue_of 0 64 [0, 5]) = Inr (Some (Inl Cancelled), dm)"
    and e3: "elems (data (q dm)) = [0]" by blast
  have c: "ctx_done obs_cancelled" by (simp add: obs_cancelled_def)
  have al: "\<forall>ob\<in>set [obs_waiting Signalled False, obs_waiting CtxDone True].
          others ob = (\<lambda>s. s) \<and> others_timer ob = (\<lambda>s. s)"
    by (simp add: obs_waiting_def)
  have nr: "\<forall>ob\<in>set [obs_waiting Signalled False, obs_waiting CtxDone True].
          \<forall>x. 0 < delays ob x \<and> 0 < delays_timer ob x"
    by (simp add: obs_waiting_def)
  have nh: "\<forall>ob\<in>set [obs_waiting Signalled False, obs_waiting CtxDone True].
          \<forall>x\<in>set (held (q (delay_queue_of 1 2 [0, 5]))). 0 < delays ob x \<and> 0 < delays_timer ob x"
    by (simp add: obs_waiting_def)
  have w: "\<not> ctx_done (obs_waiting CtxDone True)" "\<not> locked (mutex (delay_queue_of 1 2 [0, 5]))"
    "isFull (after_others (others (obs_waiting CtxDone True)) (q (delay_queue_of 1 2 [0, 5])))"
    "wake (obs_waiting CtxDone True) = CtxDone"
    "ctx_wins (obs_waiting CtxDone True)"
    "\<forall>x\<in>set (held (after_others (others (obs_waiting CtxDone True)) (q (delay_queue_of 1 2 [0, 5])))).
        0 < delays (obs_waiting CtxDone True) x"
    by (simp_all add: held_def delay_queue_of_def obs_waiting_def isFull_def)
  note T = DelayQueue_cancel_no_mutation[where grow = grow_double
      and obs = "[obs_waiting Signalled False, obs_waiting CtxDone True]"
      and d = "delay_queue_of 1 2 [0, 5]" and d' = d' and t = 7 and d'' = d''
      and ob = obs_cancelled and r = "Inl Cancelled" and ?d3.0 = d'
      and ow = "obs_waiting CtxDone True"]
  note V = DelayQueue_cancel_no_mutation[where grow = grow_double
      and obs = "[obs_meanwhile 3 5 [0], obs_at 5 5 CtxDone True]"
      and d = "delay_queue_of 0 64 [0, 5]" and d' = dm]
  from T w have a4: "\<exists>d4. DelayQueue_Dequeue grow_double
            (obs_waiting CtxDone True # [obs_waiting Signalled False, obs_waiting CtxDone True])
            (delay_queue_of 1 2 [0, 5]) = Inr (Some (Inl Cancelled), d4)
          \<and> q d4 = after_others (others (obs_waiting CtxDone True)) (q (delay_queue_of 1 2 [0, 5]))"
    by blast
  from T w have a5: "\<exists>d5. DelayQueue_Enqueue grow_double
            (obs_waiting CtxDone True # [obs_waiting Signalled False, obs_waiting CtxDone True])
            (delay_queue_of 1 2 [0, 5]) 7 = Inr (Some (Some Cancelled), d5)
          \<and> data (q d5) = others (obs_waiting CtxDone True) (data (q (delay_queue_of 1 2 [0, 5])))"
    by blast
  from T r1 al have a1: "q d' = q (delay_queue_of 1 2 [0, 5])" by blast
  from T r2 al have a2: "data (q d'') = data (q (delay_queue_of 1 2 [0, 5]))"
    "capacity (q d'') = capacity (q (delay_queue_of 1 2 [0, 5]))" by blast+
  from T c have a3: "DelayQueue_Dequeue grow_double
          (obs_cancelled # [obs_waiting Signalled False, obs_waiting CtxDone True])
          (delay_queue_of 1 2 [0, 5])
         = Inr (Some (Inl Cancelled), delay_queue_of 1 2 [0, 5])" by blast
  from V r3 have a6: "\<exists>fs. subseq fs (interference [obs_meanwhile 3 5 [0], obs_at 5 5 CtxDone True]) \<and>
           q dm = after_others (apply_all fs) (q (delay_queue_of 0 64 [0, 5]))" by blast
  from r1 a1 r2 a2 al c a3 nr w(1-5) a4 a5 r3 e3 a6 show ?thesis by blast
qed

section \<open>The lock-free queue: the invariant of the reachable states\<close>

lemma set_pc_fields [simp]:
  "nodes (set_pc t p s) = nodes s" "head (set_pc t p s) = head s" "tail (set_pc t p s) = tail s"
  "linked (set_pc t p s) = linked s" "removed (set_pc t p s) = removed s"
  "threads (set_pc t p s) = (threads s)(t := p)" "chain (set_pc t p s) = chain s"
  by (simp_all add: set_pc_def chain_def)

lemma length_chain [simp]: "length (chain s) = Suc (length (linked s))"
  by (simp add: chain_def)

lemma tail_idx_less: "tail_idx s < length (chain s)"
  by (auto simp: tail_idx_def)

lemma clq_inv_init: "clq_inv (NewConcurrentLinkedQueue z)"
  by (simp add: clq_inv_def NewConcurrentLinkedQueue_def wf_chain_def wf_head_def wf_tail_def
      wf_owner_def wf_local_def tail_idx_def chain_def new_of_def)

lemma tail_idx_set_pc:
  assumes "\<forall>a tp. threads s t \<noteq> Enq4 a tp" and "\<forall>a tp. p \<noteq> Enq4 a tp"
  shows "tail_idx (set_pc t p s) = tail_idx s"
proof -
  have "(\<exists>t' a tp. ((threads s)(t := p)) t' = Enq4 a tp) = (\<exists>t' a tp. threads s t' = Enq4 a tp)"
    using assms by (metis fun_upd_apply)
  then show ?thesis by (simp add: tail_idx_def)
qed

lemma wf_local_other:
  assumes "t' \<noteq> t" and "tail_idx (set_pc t p s) = tail_idx s"
  shows "wf_local (set_pc t p s) t' = wf_local s t'"
  using assms by (cases "threads s t'") (simp_all add: wf_local_def)

lemma inv_set_pc:
  assumes inv: "clq_inv s"
    and n4: "\<forall>a tp. threads s t \<noteq> Enq4 a tp" "\<forall>a tp. p \<noteq> Enq4 a tp"
    and own: "new_of p = None \<or> new_of p = new_of (threads s t)"
    and loc: "tail_idx (set_pc t p s) = tail_idx s \<Longrightarrow> wf_local (set_pc t p s) t"
  shows "clq_inv (set_pc t p s)"
proof -
  have ti: "tail_idx (set_pc t p s) = tail_idx s" using n4 by (rule tail_idx_set_pc)
  have c: "wf_chain (set_pc t p s)" using inv by (simp add: clq_inv_def wf_chain_def)
  have h: "wf_head (set_pc t p s)" using inv by (simp add: clq_inv_def wf_head_def)
  have tl: "wf_tail (set_pc t p s)" using inv n4 ti by (auto simp: clq_inv_def wf_tail_def)
  have ow: "wf_owner (set_pc t p s)"
    using inv own unfolding clq_inv_def wf_owner_def
    by (auto simp: fun_upd_apply split: if_splits) metis+
  have lo: "\<forall>t'. wf_local (set_pc t p s) t'"
  proof
    fix t'
    show "wf_local (set_pc t p s) t'"
    proof (cases "t' = t")
      case True
      with loc[OF ti] show ?thesis by simp
    next
      case False
      with wf_local_other[OF False ti] inv show ?thesis by (simp add: clq_inv_def)
    qed
  qed
  from c h tl ow lo show ?thesis by (simp add: clq_inv_def)
qed

lemma step_Enq1:
  assumes inv: "clq_inv s" and pc: "threads s t = Enq1 a"
  shows "clq_inv (step t s)"
proof -
  have st: "step t s = set_pc t (Enq2 a (tail s)) s" using pc by (simp add: step_def)
  have "tail s = Some (chain s ! tail_idx s)" using inv by (simp add: clq_inv_def wf_tail_def)
  then have "tail_idx (set_pc t (Enq2 a (tail s)) s) = tail_idx s \<Longrightarrow>
      wf_local (set_pc t (Enq2 a (tail s)) s) t"
    by (auto simp: wf_local_def)
  with inv pc show ?thesis unfolding st by (intro inv_set_pc) (simp_all add: new_of_def)
qed

lemma step_Enq2:
  assumes inv: "clq_inv s" and pc: "threads s t = Enq2 a tp"
  shows "clq_inv (step t s)"
proof -
  from inv pc obtain i where i: "i \<le> tail_idx s" "tp = Some (chain s ! i)"
    using spec[of "\<lambda>t. wf_local s t" t] by (auto simp: clq_inv_def wf_local_def)
  show ?thesis
  proof (cases "nxt (nodes s ! (chain s ! i)) \<noteq> None")
    case True
    then have st: "step t s = set_pc t (Enq1 a) s" using pc i by (simp add: step_def)
    from inv pc show ?thesis unfolding st
      by (intro inv_set_pc) (simp_all add: new_of_def wf_local_def)
  next
    case False
    then have st: "step t s = set_pc t (Enq3 a tp) s" using pc i by (simp add: step_def)
    have "tail_idx (set_pc t (Enq3 a tp) s) = tail_idx s \<Longrightarrow> wf_local (set_pc t (Enq3 a tp) s) t"
      using i by (auto simp: wf_local_def)
    with inv pc show ?thesis unfolding st
      by (intro inv_set_pc) (simp_all add: new_of_def)
  qed
qed

lemma step_Deq1:
  assumes inv: "clq_inv s" and pc: "threads s t = Deq1"
  shows "clq_inv (step t s)"
proof -
  have st: "step t s = set_pc t (Deq2 (head s)) s" using pc by (simp add: step_def)
  have "head s = Some (chain s ! length (removed s))" using inv by (simp add: clq_inv_def wf_head_def)
  then have "tail_idx (set_pc t (Deq2 (head s)) s) = tail_idx s \<Longrightarrow>
      wf_local (set_pc t (Deq2 (head s)) s) t"
    by (auto simp: wf_local_def)
  with inv pc show ?thesis unfolding st by (intro inv_set_pc) (simp_all add: new_of_def)
qed

lemma step_Deq2:
  assumes inv: "clq_inv s" and pc: "threads s t = Deq2 hp"
  shows "clq_inv (step t s)"
proof -
  from inv pc obtain i where i: "i \<le> length (removed s)" "hp = Some (chain s ! i)"
    using spec[of "\<lambda>t. wf_local s t" t] by (auto simp: clq_inv_def wf_local_def)
  have tl: "tail s = Some (chain s ! tail_idx s)" "length (removed s) \<le> tail_idx s"
    using inv by (simp_all add: clq_inv_def wf_tail_def)
  show ?thesis
  proof (cases "hp = tail s")
    case True
    then have st: "step t s = set_pc t (Done (DequeueRet (Inl ErrEmptyQueue))) s"
      using pc by (simp add: step_def)
    from inv pc show ?thesis unfolding st
      by (intro inv_set_pc) (simp_all add: new_of_def wf_local_def)
  next
    case False
    then have st: "step t s = set_pc t (Deq3 hp) s" using pc by (simp add: step_def)
    from False i tl have "i \<noteq> tail_idx s" by auto
    with i tl have "i < tail_idx s" by simp
    with i have "tail_idx (set_pc t (Deq3 hp) s) = tail_idx s \<Longrightarrow> wf_local (set_pc t (Deq3 hp) s) t"
      by (auto simp: wf_local_def)
    with inv pc show ?thesis unfolding st
      by (intro inv_set_pc) (simp_all add: new_of_def)
  qed
qed

lemma step_Deq3:
  assumes inv: "clq_inv s" and pc: "threads s t = Deq3 hp"
  shows "clq_inv (step t s)"
proof -
  from inv pc obtain i where i: "i \<le> length (removed s)" "i < tail_idx s" "hp = Some (chain s ! i)"
    using spec[of "\<lambda>t. wf_local s t" t] by (auto simp: clq_inv_def wf_local_def)
  have "Suc i < length (chain s)" using i(2) tail_idx_less[of s] by simp
  then have nx: "nxt (nodes s ! (chain s ! i)) = Some (chain s ! Suc i)"
    using inv by (simp add: clq_inv_def wf_chain_def)
  have st: "step t s = set_pc t (Deq4 hp (Some (chain s ! Suc i))) s"
    using pc i nx by (simp add: step_def)
  have "tail_idx (set_pc t (Deq4 hp (Some (chain s ! Suc i))) s) = tail_idx s \<Longrightarrow>
      wf_local (set_pc t (Deq4 hp (Some (chain s ! Suc i))) s) t"
    using i by (auto simp: wf_local_def)
  with inv pc show ?thesis unfolding st by (intro inv_set_pc) (simp_all add: new_of_def)
qed

lemma wf_local_mono:
  assumes loc: "wf_local s t'" and pc: "threads s' t' = threads s t'"
    and ti: "tail_idx s \<le> tail_idx s'" and rm: "length (removed s) \<le> length (removed s')"
    and ch: "\<forall>i<length (chain s). chain s' ! i = chain s ! i"
    and rl: "length (removed s) < length (chain s)"
  shows "wf_local s' t'"
proof -
  have lt: "tail_idx s < length (chain s)" by (rule tail_idx_less)
  have e: "\<And>i. i \<le> tail_idx s \<Longrightarrow> chain s' ! i = chain s ! i" using ch lt by simp
  have e1: "\<And>i. i < tail_idx s \<Longrightarrow> chain s' ! Suc i = chain s ! Suc i" using ch lt by simp
  show ?thesis
  proof (cases "threads s t'")
    case (Enq2 a tp)
    with loc obtain i where "i \<le> tail_idx s" "tp = Some (chain s ! i)" by (auto simp: wf_local_def)
    with e[of i] ti have "i \<le> tail_idx s' \<and> tp = Some (chain s' ! i)" by simp
    with Enq2 pc show ?thesis by (auto simp: wf_local_def)
  next
    case (Enq3 a tp)
    with loc obtain i where "i \<le> tail_idx s" "tp = Some (chain s ! i)" by (auto simp: wf_local_def)
    with e[of i] ti have "i \<le> tail_idx s' \<and> tp = Some (chain s' ! i)" by simp
    with Enq3 pc show ?thesis by (auto simp: wf_local_def)
  next
    case (Deq2 hp)
    with loc obtain i where i: "i \<le> length (removed s)" "hp = Some (chain s ! i)"
      by (auto simp: wf_local_def)
    with ch rl rm have "i \<le> length (removed s') \<and> hp = Some (chain s' ! i)" by simp
    with Deq2 pc show ?thesis by (auto simp: wf_local_def)
  next
    case (Deq3 hp)
    with loc obtain i where "i \<le> length (removed s)" "i < tail_idx s" "hp = Some (chain s ! i)"
      by (auto simp: wf_local_def)
    with e[of i] ti rm have "i \<le> length (removed s') \<and> i < tail_idx s' \<and> hp = Some (chain s' ! i)"
      by simp
    with Deq3 pc show ?thesis by (auto simp: wf_local_def)
  next
    case (Deq4 hp hn)
    with loc obtain i where "i \<le> length (removed s)" "i < tail_idx s" "hp = Some (chain s ! i)"
      "hn = Some (chain s ! Suc i)"
      by (auto simp: wf_local_def)
    with e[of i] e1[of i] ti rm
    have "i \<le> length (removed s') \<and> i < tail_idx s' \<and> hp = Some (chain s' ! i) \<and>
        hn = Some (chain s' ! Suc i)"
      by simp
    with Deq4 pc show ?thesis by (auto simp: wf_local_def)
  qed (use loc pc in \<open>simp_all add: wf_local_def\<close>)
qed


lemma step_Enq0:
  assumes inv: "clq_inv s" and pc: "threads s t = Enq0 v"
  shows "clq_inv (step t s)"
proof -
  define a where "a = length (nodes s)"
  define s' where "s' = set_pc t (Enq1 a) (s\<lparr>nodes := nodes s @ [\<lparr>val = v, nxt = None\<rparr>]\<rparr>)"
  have st: "step t s = s'" using pc by (simp add: step_def s'_def a_def)
  have f: "nodes s' = nodes s @ [\<lparr>val = v, nxt = None\<rparr>]" "head s' = head s" "tail s' = tail s"
    "linked s' = linked s" "removed s' = removed s" "chain s' = chain s"
    "threads s' = (threads s)(t := Enq1 a)"
    by (simp_all add: s'_def chain_def)
  have old: "\<And>b. b < length (nodes s) \<Longrightarrow> nodes s' ! b = nodes s ! b"
    by (simp add: f nth_append)
  from inv have c: "wf_chain s" and h: "wf_head s" and tl: "wf_tail s" and ow: "wf_owner s"
    and lo: "\<forall>t. wf_local s t" by (simp_all add: clq_inv_def)
  have ti: "tail_idx s' = tail_idx s"
    unfolding s'_def using pc by (subst tail_idx_set_pc) (simp_all add: tail_idx_def chain_def)
  have c': "wf_chain s'"
    using c old unfolding wf_chain_def f(6) by (auto simp: f(1))
  have h': "wf_head s'" using h by (simp add: wf_head_def f)
  have tl': "wf_tail s'" using tl pc ti unfolding wf_tail_def f by (auto split: if_splits)
  have ow1: "b < length (nodes s') \<and> b \<notin> set (chain s') \<and> nxt (nodes s' ! b) = None"
    if n: "new_of (threads s' t') = Some b" for t' b
    proof (cases "t' = t")
      case True
      with n have "b = a" by (simp add: f new_of_def)
      moreover have "a \<notin> set (chain s)" using c by (auto simp: wf_chain_def a_def)
      ultimately show ?thesis by (simp add: f a_def)
    next
      case False
      with n have "new_of (threads s t') = Some b" by (simp add: f)
      with ow have "b < length (nodes s) \<and> b \<notin> set (chain s) \<and> nxt (nodes s ! b) = None"
        by (simp add: wf_owner_def)
      with old[of b] show ?thesis by (simp add: f)
    qed
  have ow2: "t1 = t2"
    if n: "new_of (threads s' t1) = Some b" "new_of (threads s' t2) = Some b" for t1 t2 b
  proof -
    have lt: "\<And>t'. t' \<noteq> t \<Longrightarrow> new_of (threads s t') = Some b \<Longrightarrow> b < a"
      using ow by (simp add: wf_owner_def a_def)
    show "t1 = t2"
    proof (cases "t1 = t"; cases "t2 = t")
      assume "t1 \<noteq> t" "t2 \<noteq> t"
      with n have "new_of (threads s t1) = Some b" "new_of (threads s t2) = Some b"
        by (simp_all add: f)
      with ow show ?thesis unfolding wf_owner_def by blast
    next
      assume a: "t1 = t" "t2 \<noteq> t"
      with n have "b = a" "new_of (threads s t2) = Some b" by (simp_all add: f new_of_def)
      with lt[OF a(2)] show ?thesis by simp
    next
      assume a: "t1 \<noteq> t" "t2 = t"
      with n have "b = a" "new_of (threads s t1) = Some b" by (simp_all add: f new_of_def)
      with lt[OF a(1)] show ?thesis by simp
    qed simp
  qed
  have ow': "wf_owner s'" unfolding wf_owner_def using ow1 ow2 by blast
  have lo': "\<forall>t'. wf_local s' t'"
  proof
    fix t'
    show "wf_local s' t'"
    proof (cases "t' = t")
      case True
      then show ?thesis by (simp add: wf_local_def f)
    next
      case False
      then have "threads s' t' = threads s t'" by (simp add: f)
      with lo ti h show ?thesis
        by (intro wf_local_mono[of s t' s']) (simp_all add: f wf_head_def)
    qed
  qed
  from c' h' tl' ow' lo' show ?thesis unfolding st by (simp add: clq_inv_def)
qed

lemma wf_ownerD:
  "wf_owner s \<Longrightarrow> new_of (threads s t) = Some a \<Longrightarrow>
     a < length (nodes s) \<and> a \<notin> set (chain s) \<and> nxt (nodes s ! a) = None"
  unfolding wf_owner_def by blast

lemma wf_owner_unique:
  "wf_owner s \<Longrightarrow> new_of (threads s t) = Some a \<Longrightarrow> new_of (threads s t') = Some a \<Longrightarrow> t = t'"
  unfolding wf_owner_def by blast

lemma step_Enq3:
  assumes inv: "clq_inv s" and pc: "threads s t = Enq3 a tp"
  shows "clq_inv (step t s)"
proof -
  from inv have c: "wf_chain s" and h: "wf_head s" and tl: "wf_tail s" and ow: "wf_owner s"
    and lo: "\<forall>t. wf_local s t" by (simp_all add: clq_inv_def)
  from lo pc obtain i where i: "i \<le> tail_idx s" "tp = Some (chain s ! i)"
    using spec[of "\<lambda>t. wf_local s t" t] by (auto simp: wf_local_def)
  define x where "x = chain s ! i"
  define n where "n = length (chain s)"
  have il: "i < n" using i(1) tail_idx_less[of s] by (simp add: n_def)
  show ?thesis
  proof (cases "nxt (nodes s ! x) = None")
    case False
    then have st: "step t s = set_pc t (Enq1 a) s" using pc i by (auto simp: step_def x_def)
    from inv pc show ?thesis unfolding st
      by (intro inv_set_pc) (simp_all add: new_of_def wf_local_def)
  next
    case True
    have last_i: "Suc i = n"
    proof (rule ccontr)
      assume "Suc i \<noteq> n"
      with il have "Suc i < length (chain s)" by (simp add: n_def)
      with c il have "nxt (nodes s ! (chain s ! i)) = Some (chain s ! Suc i)"
        by (simp add: wf_chain_def n_def)
      with True show False by (simp add: x_def)
    qed
    have no4: "\<forall>t' a' tp'. threads s t' \<noteq> Enq4 a' tp'"
    proof (intro allI notI)
      fix t' a' tp' assume e: "threads s t' = Enq4 a' tp'"
      with tl have "2 \<le> length (chain s)" by (auto simp: wf_tail_def)
      moreover from e have "tail_idx s = length (chain s) - 2" by (auto simp: tail_idx_def)
      ultimately show False using i(1) last_i by (simp add: n_def)
    qed
    then have ti: "tail_idx s = i" using last_i by (auto simp: tail_idx_def n_def)
    have nt: "new_of (threads s t) = Some a" using pc by (simp add: new_of_def)
    have own: "a < length (nodes s)" "a \<notin> set (chain s)" "nxt (nodes s ! a) = None"
      using wf_ownerD[OF ow nt] by simp_all
    have xin: "x \<in> set (chain s)" "x < length (nodes s)"
      using il c by (auto simp: x_def n_def wf_chain_def)
    then have ax: "a \<noteq> x" using own by auto
    define s' where "s' = set_pc t (Enq4 a tp) ((set_nxt x (Some a) s)\<lparr>linked := linked s @ [(t, a)]\<rparr>)"
    have st: "step t s = s'" using pc i True by (simp add: step_def x_def s'_def)
    have f: "nodes s' = (nodes s)[x := (nodes s ! x)\<lparr>nxt := Some a\<rparr>]" "head s' = head s"
      "tail s' = tail s" "linked s' = linked s @ [(t, a)]" "removed s' = removed s"
      "chain s' = chain s @ [a]" "threads s' = (threads s)(t := Enq4 a tp)"
      by (simp_all add: s'_def chain_def set_nxt_def)
    have nx: "\<And>b. b < length (nodes s) \<Longrightarrow>
        nxt (nodes s' ! b) = (if b = x then Some a else nxt (nodes s ! b))"
      by (simp add: f nth_list_update)
    have ti': "tail_idx s' = i"
    proof -
      have "\<exists>t' a' tp'. threads s' t' = Enq4 a' tp'" by (auto simp: f)
      then show ?thesis using last_i by (simp add: tail_idx_def f n_def)
    qed
    have c': "wf_chain s'"
      unfolding wf_chain_def
    proof (intro conjI ballI allI impI)
      show "distinct (chain s')" using c own by (simp add: f wf_chain_def)
      show "b < length (nodes s')" if "b \<in> set (chain s')" for b
        using that c own by (auto simp: f wf_chain_def)
      show "nxt (nodes s' ! (chain s' ! j)) =
          (if Suc j < length (chain s') then Some (chain s' ! Suc j) else None)"
        if j: "j < length (chain s')" for j
      proof -
        have "j < i \<or> j = i \<or> j = n" using j last_i by (auto simp: f n_def)
        then consider (before) "j < i" | (at) "j = i" | (new) "j = n" by blast
        then show ?thesis
        proof cases
          case before
          then have jn: "j < length (chain s)" "Suc j < length (chain s)" using il last_i
            by (simp_all add: n_def)
          have "chain s ! j \<noteq> x" using c before il jn
            by (auto simp: x_def wf_chain_def n_def nth_eq_iff_index_eq)
          moreover have "chain s ! j < length (nodes s)" using c jn by (auto simp: wf_chain_def)
          ultimately have "nxt (nodes s' ! (chain s ! j)) = nxt (nodes s ! (chain s ! j))"
            by (simp add: nx)
          also have "\<dots> = Some (chain s ! Suc j)" using c jn by (simp add: wf_chain_def)
          finally show ?thesis using jn by (simp add: f nth_append)
        next
          case at
          then have "chain s' ! j = x" using il by (simp add: f nth_append x_def n_def)
          moreover have "chain s' ! Suc j = a" using at last_i by (simp add: f nth_append n_def)
          ultimately show ?thesis using xin nx[of x] at last_i by (simp add: f n_def)
        next
          case new
          then have "chain s' ! j = a" by (simp add: f nth_append n_def)
          with new own ax nx[of a] show ?thesis by (simp add: f n_def)
        qed
      qed
    qed
    have h': "wf_head s'"
      using h by (auto simp: wf_head_def f nth_append)
    have tl': "wf_tail s'"
    proof -
      have 1: "tail s' = Some (chain s' ! tail_idx s')"
        using tl ti ti' il by (simp add: wf_tail_def f nth_append n_def)
      have 2: "length (removed s') \<le> tail_idx s'" using tl ti ti' by (simp add: wf_tail_def f)
      have 3: "t' = t \<and> a' = a \<and> tp' = tp" if "threads s' t' = Enq4 a' tp'" for t' a' tp'
        using that no4 by (auto simp: f split: if_splits)
      have 4: "tp = tail s'" using tl ti i by (simp add: wf_tail_def f)
      have 5: "a = last (chain s')" "2 \<le> length (chain s')" by (simp_all add: f)
      show ?thesis unfolding wf_tail_def using 1 2 3 4 5 by blast
    qed
    have ow': "wf_owner s'"
      unfolding wf_owner_def
    proof (intro conjI allI impI)
      fix t' b assume n: "new_of (threads s' t') = Some b"
      then have t': "t' \<noteq> t" "new_of (threads s t') = Some b"
        by (auto simp: f new_of_def split: if_splits)
      have b: "b < length (nodes s)" "b \<notin> set (chain s)" "nxt (nodes s ! b) = None"
        using wf_ownerD[OF ow t'(2)] by simp_all
      have "b \<noteq> a" using wf_owner_unique[OF ow t'(2), of t] nt t'(1) by auto
      show "b < length (nodes s')" using b by (simp add: f)
      show "b \<notin> set (chain s')" using b \<open>b \<noteq> a\<close> by (simp add: f)
      show "nxt (nodes s' ! b) = None" using b xin nx[of b] by auto
    next
      fix t1 t2 b assume "new_of (threads s' t1) = Some b" "new_of (threads s' t2) = Some b"
      then have "new_of (threads s t1) = Some b" "new_of (threads s t2) = Some b"
        by (auto simp: f new_of_def split: if_splits)
      with ow show "t1 = t2" by (rule wf_owner_unique)
    qed
    have lo': "\<forall>t'. wf_local s' t'"
    proof
      fix t'
      show "wf_local s' t'"
      proof (cases "t' = t")
        case True
        then show ?thesis by (simp add: wf_local_def f)
      next
        case False
        then have "threads s' t' = threads s t'" by (simp add: f)
        with lo ti ti' h show ?thesis
          by (intro wf_local_mono[of s t' s']) (simp_all add: f wf_head_def nth_append)
      qed
    qed
    from c' h' tl' ow' lo' show ?thesis unfolding st by (simp add: clq_inv_def)
  qed
qed

lemma step_Enq4:
  assumes inv: "clq_inv s" and pc: "threads s t = Enq4 a tp"
  shows "clq_inv (step t s)"
proof -
  from inv have c: "wf_chain s" and h: "wf_head s" and tl: "wf_tail s" and ow: "wf_owner s"
    and lo: "\<forall>t. wf_local s t" by (simp_all add: clq_inv_def)
  from tl pc have n2: "2 \<le> length (chain s)" and a: "a = last (chain s)" and tp: "tp = tail s"
    and uniq: "\<And>t' a' tp'. threads s t' = Enq4 a' tp' \<Longrightarrow> t' = t"
    unfolding wf_tail_def by blast+
  have ti: "tail_idx s = length (chain s) - 2" using pc by (auto simp: tail_idx_def)
  define s' where "s' = set_pc t (Done (EnqueueRet None)) (s\<lparr>tail := Some a\<rparr>)"
  have st: "step t s = s'" using pc tp by (simp add: step_def s'_def)
  have f: "nodes s' = nodes s" "head s' = head s" "tail s' = Some a" "linked s' = linked s"
    "removed s' = removed s" "chain s' = chain s"
    "threads s' = (threads s)(t := Done (EnqueueRet None))"
    by (simp_all add: s'_def chain_def)
  have no4: "\<And>t' a' tp'. threads s' t' \<noteq> Enq4 a' tp'"
    using uniq by (auto simp: f split: if_splits)
  then have ti': "tail_idx s' = length (chain s) - 1" by (simp add: tail_idx_def f del: length_chain)
  have c': "wf_chain s'" using c by (simp add: wf_chain_def f)
  have h': "wf_head s'" using h by (simp add: wf_head_def f)
  have "chain s \<noteq> []" by (simp add: chain_def)
  then have la: "last (chain s) = chain s ! (length (chain s) - 1)" by (rule last_conv_nth)
  have "length (removed s) \<le> length (chain s) - 2" using tl ti by (simp add: wf_tail_def)
  then have rl: "length (removed s) \<le> length (chain s) - 1" by simp
  have tl': "wf_tail s'"
    unfolding wf_tail_def using ti' no4 a la rl
    by (simp add: f del: length_chain)
  have ow': "wf_owner s'"
    using ow pc unfolding wf_owner_def f
    by (auto simp: new_of_def split: if_splits)
  have lo': "\<forall>t'. wf_local s' t'"
  proof
    fix t'
    show "wf_local s' t'"
    proof (cases "t' = t")
      case True
      then show ?thesis by (simp add: wf_local_def f)
    next
      case False
      then have "threads s' t' = threads s t'" by (simp add: f)
      with lo ti ti' h show ?thesis
        by (intro wf_local_mono[of s t' s']) (simp_all add: f wf_head_def)
    qed
  qed
  from c' h' tl' ow' lo' show ?thesis unfolding st by (simp add: clq_inv_def)
qed

lemma step_Deq4:
  assumes inv: "clq_inv s" and pc: "threads s t = Deq4 hp hn"
  shows "clq_inv (step t s)"
proof -
  from inv have c: "wf_chain s" and h: "wf_head s" and tl: "wf_tail s" and ow: "wf_owner s"
    and lo: "\<forall>t. wf_local s t" by (simp_all add: clq_inv_def)
  from lo pc obtain i where i: "i \<le> length (removed s)" "i < tail_idx s" "hp = Some (chain s ! i)"
      "hn = Some (chain s ! Suc i)"
    using spec[of "\<lambda>t. wf_local s t" t] by (auto simp: wf_local_def)
  define k where "k = length (removed s)"
  show ?thesis
  proof (cases "head s = hp")
    case False
    then have st: "step t s = set_pc t Deq1 s" using pc by (simp add: step_def)
    from inv pc show ?thesis unfolding st
      by (intro inv_set_pc) (simp_all add: new_of_def wf_local_def)
  next
    case True
    have kl: "k < length (chain s)" and hd: "head s = Some (chain s ! k)"
      and rm: "map snd (removed s) = take k (map snd (linked s))"
      using h by (simp_all add: wf_head_def k_def)
    have il: "i < length (chain s)" using i(2) tail_idx_less[of s] by simp
    from True hd i(3) have "chain s ! k = chain s ! i" by simp
    with c kl il have ik: "i = k" by (simp add: wf_chain_def nth_eq_iff_index_eq)
    have sk: "Suc k < length (chain s)" using i(2) ik tail_idx_less[of s] by simp
    define b where "b = chain s ! Suc k"
    define s' where "s' = set_pc t (Done (DequeueRet (Inr (val (nodes s ! b)))))
        (s\<lparr>head := hn, removed := removed s @ [(t, b)]\<rparr>)"
    have st: "step t s = s'" using pc True i(4) ik by (simp add: step_def s'_def b_def)
    have f: "nodes s' = nodes s" "head s' = hn" "tail s' = tail s" "linked s' = linked s"
      "removed s' = removed s @ [(t, b)]" "chain s' = chain s"
      "threads s' = (threads s)(t := Done (DequeueRet (Inr (val (nodes s ! b)))))"
      by (simp_all add: s'_def chain_def)
    have ti': "tail_idx s' = tail_idx s"
      unfolding s'_def using pc
      by (subst tail_idx_set_pc) (simp_all add: tail_idx_def chain_def)
    have c': "wf_chain s'" using c by (simp add: wf_chain_def f)
    have bl: "b = map snd (linked s) ! k" and kll: "k < length (map snd (linked s))"
      using sk by (simp_all add: b_def chain_def)
    have lr: "length (removed s') = Suc k" by (simp add: f k_def)
    have rm': "map snd (removed s') = take (Suc k) (map snd (linked s))"
      using rm take_Suc_conv_app_nth[OF kll] bl by (simp add: f)
    have hd': "head s' = Some (chain s ! Suc k)" using i(4) ik by (simp add: f)
    have h': "wf_head s'"
      unfolding wf_head_def lr using sk rm' hd' by (simp add: f del: length_chain)
    have tl': "wf_tail s'"
      using tl pc i(2) ik ti' unfolding wf_tail_def f
      by (auto simp: k_def split: if_splits)
    have ow': "wf_owner s'"
      using ow pc unfolding wf_owner_def f
      by (auto simp: new_of_def split: if_splits)
    have lo': "\<forall>t'. wf_local s' t'"
    proof
      fix t'
      show "wf_local s' t'"
      proof (cases "t' = t")
        case True
        then show ?thesis by (simp add: wf_local_def f)
      next
        case False
        then have "threads s' t' = threads s t'" by (simp add: f)
        with lo ti' h show ?thesis
          by (intro wf_local_mono[of s t' s']) (simp_all add: f wf_head_def)
      qed
    qed
    from c' h' tl' ow' lo' show ?thesis unfolding st by (simp add: clq_inv_def)
  qed
qed

lemma set_nxt_fields [simp]:
  "head (set_nxt a p s) = head s" "tail (set_nxt a p s) = tail s"
  "linked (set_nxt a p s) = linked s" "removed (set_nxt a p s) = removed s"
  "threads (set_nxt a p s) = threads s" "chain (set_nxt a p s) = chain s"
  "nodes (set_nxt a p s) = (nodes s)[a := (nodes s ! a)\<lparr>nxt := p\<rparr>]"
  by (simp_all add: set_nxt_def chain_def)

lemma step_inv:
  assumes "clq_inv s"
  shows "clq_inv (step t s)"
proof (cases "threads s t")
  case Idle
  then have "step t s = s" by (simp add: step_def)
  with assms show ?thesis by simp
next
  case (Enq0 v)
  with assms show ?thesis by (rule step_Enq0)
next
  case (Enq1 a)
  with assms show ?thesis by (rule step_Enq1)
next
  case (Enq2 a tp)
  with assms show ?thesis by (rule step_Enq2)
next
  case (Enq3 a tp)
  with assms show ?thesis by (rule step_Enq3)
next
  case (Enq4 a tp)
  with assms show ?thesis by (rule step_Enq4)
next
  case Deq1
  with assms show ?thesis by (rule step_Deq1)
next
  case (Deq2 hp)
  with assms show ?thesis by (rule step_Deq2)
next
  case (Deq3 hp)
  with assms show ?thesis by (rule step_Deq3)
next
  case (Deq4 hp hn)
  with assms show ?thesis by (rule step_Deq4)
next
  case (Done r)
  then have "step t s = s" by (simp add: step_def)
  with assms show ?thesis by simp
next
  case Crashed
  then have "step t s = s" by (simp add: step_def)
  with assms show ?thesis by simp
qed

lemma act_inv:
  assumes "clq_inv s"
  shows "clq_inv (act a s)"
proof (cases a)
  case (CallEnqueue t v)
  show ?thesis
  proof (cases "threads s t = Idle")
    case True
    then have "act a s = set_pc t (Enq0 v) s" using CallEnqueue by (simp add: act_def)
    with assms True show ?thesis
      by (simp, intro inv_set_pc) (simp_all add: new_of_def wf_local_def)
  next
    case False
    with CallEnqueue assms show ?thesis by (simp add: act_def)
  qed
next
  case (CallDequeue t)
  show ?thesis
  proof (cases "threads s t = Idle")
    case True
    then have "act a s = set_pc t Deq1 s" using CallDequeue by (simp add: act_def)
    with assms True show ?thesis
      by (simp, intro inv_set_pc) (simp_all add: new_of_def wf_local_def)
  next
    case False
    with CallDequeue assms show ?thesis by (simp add: act_def)
  qed
next
  case (Step t)
  with assms show ?thesis by (simp add: act_def step_inv)
next
  case (Finish t)
  show ?thesis
  proof (cases "threads s t")
    case (Done r)
    then have "act a s = set_pc t Idle s" using Finish by (simp add: act_def)
    with assms Done show ?thesis
      by (simp, intro inv_set_pc) (simp_all add: new_of_def wf_local_def)
  qed (use Finish assms in \<open>simp_all add: act_def\<close>)
qed

lemma clq_reachable_inv: "clq_reachable s \<Longrightarrow> clq_inv s"
  by (induction rule: clq_reachable.induct) (simp_all add: clq_inv_init act_inv)

lemma run_reachable: "clq_reachable s \<Longrightarrow> clq_reachable (run as s)"
proof (induction as arbitrary: s)
  case Nil
  then show ?case by (simp add: run_def)
next
  case (Cons a as)
  from Cons.prems have "clq_reachable (act a s)" by (rule clq_act)
  from Cons.IH[OF this] show ?case by (simp add: run_def)
qed




section \<open>The lock-free queue: a call that runs alone\<close>

lemma solo_dequeue:
  assumes inv: "clq_inv s" and idle: "threads s t = Idle"
    and lt: "length (removed s) < tail_idx s"
  shows "run [CallDequeue t, Step t, Step t, Step t, Step t] s =
     set_pc t (Done (DequeueRet (Inr (val (nodes s ! (chain s ! Suc (length (removed s))))))))
       (s\<lparr>head := Some (chain s ! Suc (length (removed s))),
          removed := removed s @ [(t, chain s ! Suc (length (removed s)))]\<rparr>)"
proof -
  define k where "k = length (removed s)"
  from inv have c: "wf_chain s" and h: "wf_head s" and tl: "wf_tail s"
    by (simp_all add: clq_inv_def)
  have hd: "head s = Some (chain s ! k)" using h by (simp add: wf_head_def k_def)
  have tlp: "tail s = Some (chain s ! tail_idx s)" using tl by (simp add: wf_tail_def)
  have til: "tail_idx s < length (chain s)" by (rule tail_idx_less)
  have kl: "k < length (chain s)" "Suc k < length (chain s)" using lt til by (simp_all add: k_def)
  have ne: "chain s ! k \<noteq> chain s ! tail_idx s"
    using c kl til lt by (simp add: wf_chain_def nth_eq_iff_index_eq k_def)
  have nx: "nxt (nodes s ! (chain s ! k)) = Some (chain s ! Suc k)"
    using c kl by (simp add: wf_chain_def)
  define s1 where "s1 = set_pc t Deq1 s"
  define s2 where "s2 = set_pc t (Deq2 (head s)) s"
  define s3 where "s3 = set_pc t (Deq3 (head s)) s"
  define s4 where "s4 = set_pc t (Deq4 (head s) (Some (chain s ! Suc k))) s"
  have a1: "act (CallDequeue t) s = s1" using idle by (simp add: act_def s1_def)
  have a2: "act (Step t) s1 = s2" by (simp add: act_def step_def s1_def s2_def set_pc_def)
  have a3: "act (Step t) s2 = s3"
    using hd tlp ne by (simp add: act_def step_def s2_def s3_def set_pc_def)
  have a4: "act (Step t) s3 = s4"
    using hd nx by (simp add: act_def step_def s3_def s4_def set_pc_def)
  have a5: "act (Step t) s4 =
     set_pc t (Done (DequeueRet (Inr (val (nodes s ! (chain s ! Suc k))))))
       (s\<lparr>head := Some (chain s ! Suc k), removed := removed s @ [(t, chain s ! Suc k)]\<rparr>)"
    by (simp add: act_def step_def s4_def set_pc_def)
  show ?thesis unfolding run_def k_def[symmetric] by (simp add: a1 a2 a3 a4 a5)
qed






section \<open>The lock-free queue: concrete runs and auxiliary facts\<close>


lemmas clq_run_defs = run_def act_def step_def set_pc_def set_nxt_def NewConcurrentLinkedQueue_def


lemma clq_race_eq:
  "clq_race = \<lparr>nodes = [\<lparr>val = 0, nxt = Some 2\<rparr>, \<lparr>val = 5, nxt = None\<rparr>, \<lparr>val = 6, nxt = Some 1\<rparr>],
     head = Some 2, tail = Some 1, threads = (\<lambda>t. Idle), linked = [(1, 2), (0, 1)],
     removed = [(2, 2)]\<rparr>"
  by (simp add: clq_race_def clq_run_defs fun_eq_iff)


lemma clq_race_reachable: "clq_reachable clq_race"
  unfolding clq_race_def by (rule run_reachable[OF clq_init])

lemma clq_new_facts:
  "threads (NewConcurrentLinkedQueue z) t = Idle"
  "\<forall>t' a tp. threads (NewConcurrentLinkedQueue z) t' \<noteq> Enq4 a tp"
  "content (NewConcurrentLinkedQueue z) = []"
  by (simp_all add: NewConcurrentLinkedQueue_def content_def)


lemma filter_owner:
  assumes "distinct (map snd xs)" and "set ys \<subseteq> set xs"
  shows "filter (\<lambda>a. (p, a) \<in> set xs) (map snd ys) = map snd (filter (\<lambda>e. fst e = p) ys)"
proof -
  have "(p, snd e) \<in> set xs \<longleftrightarrow> fst e = p" if "e \<in> set xs" for e
  proof
    assume "(p, snd e) \<in> set xs"
    with assms(1) that have "(p, snd e) = e" by (metis eq_key_imp_eq_value prod.collapse distinct_map inj_onD snd_conv)
    then show "fst e = p" by (metis fst_conv)
  next
    assume "fst e = p"
    with that show "(p, snd e) \<in> set xs" by auto
  qed
  with assms(2) show ?thesis by (induction ys) auto
qed

lemma prefix_filter_take: "prefix (filter P (take k xs)) (filter P xs)"
proof -
  have "filter P xs = filter P (take k xs) @ filter P (drop k xs)"
    by (metis append_take_drop_id filter_append)
  then show ?thesis by (simp add: prefix_def)
qed

lemma val_list_update:
  "a < length ns \<Longrightarrow> val (ns[b := (ns ! b)\<lparr>nxt := p\<rparr>] ! a) = val (ns ! a)"
  by (cases "a = b") simp_all

lemma val_kept:
  assumes "a < length (nodes s)"
  shows "a < length (nodes (act x s)) \<and> val (nodes (act x s) ! a) = val (nodes s ! a)"
proof (cases x)
  case (Step t)
  with assms show ?thesis
    by (cases "threads s t")
      (auto simp: act_def step_def nth_append val_list_update split: option.splits)
qed (use assms in \<open>auto simp: act_def split: pc.splits\<close>)

lemma clq_lagging_eq:
  "clq_lagging = \<lparr>nodes = [\<lparr>val = 0, nxt = Some 1\<rparr>, \<lparr>val = 5, nxt = Some 2\<rparr>, \<lparr>val = 6, nxt = None\<rparr>],
     head = Some 0, tail = Some 1, threads = (\<lambda>t. Idle)(1 := Enq4 2 (Some 1)),
     linked = [(0, 1), (1, 2)], removed = []\<rparr>"
  by (simp add: clq_lagging_def clq_run_defs fun_eq_iff)

lemma clq_lagging_reachable: "clq_reachable clq_lagging"
  unfolding clq_lagging_def by (rule run_reachable[OF clq_init])

lemma clq_lagging_tail_idx: "tail_idx clq_lagging = 1"
proof -
  have "threads clq_lagging 1 = Enq4 2 (Some 1)" by (simp add: clq_lagging_eq)
  then have "\<exists>t a tp. threads clq_lagging t = Enq4 a tp" by blast
  then show ?thesis by (simp add: tail_idx_def) (simp add: clq_lagging_eq)
qed

section \<open>The lock-free queue: what a call does under every interleaving\<close>

lemma grown_without_refl: "grown_without t xs xs"
  by (simp add: grown_without_def)

lemma grown_without_other:
  assumes "grown_without t old new" and "u \<noteq> t"
  shows "grown_without t old (new @ [(u, b)])"
proof -
  from assms(1) have p: "prefix old new" by (simp add: grown_without_def)
  then have "length old \<le> length new" by (rule prefix_length_le)
  with assms p show ?thesis by (simp add: grown_without_def)
qed

lemma grown_once_other:
  assumes "grown_once t a old new" and "u \<noteq> t"
  shows "grown_once t a old (new @ [(u, b)])"
proof -
  from assms(1) have p: "prefix old new" by (simp add: grown_once_def)
  then have "length old \<le> length new" by (rule prefix_length_le)
  with assms p show ?thesis by (simp add: grown_once_def)
qed

lemma grown_without_own:
  assumes "grown_without t old new"
  shows "grown_once t a old (new @ [(t, a)])"
proof -
  from assms(1) have p: "prefix old new" by (simp add: grown_without_def)
  then have "length old \<le> length new" by (rule prefix_length_le)
  with assms p show ?thesis by (simp add: grown_without_def grown_once_def)
qed

lemma step_other_pc: "u \<noteq> t \<Longrightarrow> threads (step u s) t = threads s t"
  by (cases "threads s u") (auto simp: step_def split: option.splits)

lemma linked_step:
  "linked (step u s) = linked s \<or> (\<exists>b. linked (step u s) = linked s @ [(u, b)])"
  by (cases "threads s u") (auto simp: step_def split: option.splits)

lemma removed_step:
  "removed (step u s) = removed s \<or> (\<exists>b. removed (step u s) = removed s @ [(u, b)])"
  by (cases "threads s u") (auto simp: step_def split: option.splits)

lemma grown_without_step:
  assumes "grown_without t old (linked s)" and "u \<noteq> t"
  shows "grown_without t old (linked (step u s))"
  using linked_step[of u s] assms by (auto intro: grown_without_other)

lemma grown_once_step:
  assumes "grown_once t a old (linked s)" and "u \<noteq> t"
  shows "grown_once t a old (linked (step u s))"
  using linked_step[of u s] assms by (auto intro: grown_once_other)

lemma grown_without_step_removed:
  assumes "grown_without t old (removed s)" and "u \<noteq> t"
  shows "grown_without t old (removed (step u s))"
  using removed_step[of u s] assms by (auto intro: grown_without_other)

lemma grown_once_step_removed:
  assumes "grown_once t a old (removed s)" and "u \<noteq> t"
  shows "grown_once t a old (removed (step u s))"
  using removed_step[of u s] assms by (auto intro: grown_once_other)

lemma holds_act: "holds s a v \<Longrightarrow> holds (act x s) a v"
  using val_kept[of a s x] by (simp add: holds_def)

lemma val_act: "a < length (nodes s) \<Longrightarrow> val (nodes (act x s) ! a) = val (nodes s ! a)"
  using val_kept[of a s x] by simp

lemma len_act: "a < length (nodes s) \<Longrightarrow> a < length (nodes (act x s))"
  using val_kept[of a s x] by simp


lemma step_Enq4_source:
  assumes "threads (step u s) t' = Enq4 a tp"
  shows "threads s t' = Enq4 a tp \<or> length (linked (step u s)) = Suc (length (linked s))"
  using assms
  by (cases "threads s u") (auto simp: step_def fun_upd_apply split: if_splits option.splits)

lemma length_linked_step: "length (linked s) \<le> length (linked (step u s))"
  using linked_step[of u s] by auto

lemma tail_idx_mono_step: "tail_idx s \<le> tail_idx (step u s)"
proof (cases "\<exists>t' a tp. threads (step u s) t' = Enq4 a tp")
  case False
  then have "tail_idx (step u s) = length (linked (step u s))" by (simp add: tail_idx_def)
  moreover have "tail_idx s \<le> length (linked s)" using tail_idx_less[of s] by simp
  ultimately show ?thesis using length_linked_step[of s u] by simp
next
  case True
  then obtain t' a tp where e: "threads (step u s) t' = Enq4 a tp" by blast
  from True have ti: "tail_idx (step u s) = length (linked (step u s)) - 1"
    by (simp add: tail_idx_def)
  from step_Enq4_source[OF e] show ?thesis
  proof
    assume "threads s t' = Enq4 a tp"
    then have "\<exists>t' a tp. threads s t' = Enq4 a tp" by blast
    then have "tail_idx s = length (linked s) - 1" by (simp add: tail_idx_def)
    with ti length_linked_step[of s u] show ?thesis by simp
  next
    assume "length (linked (step u s)) = Suc (length (linked s))"
    with ti tail_idx_less[of s] show ?thesis by simp
  qed
qed

lemma tail_idx_mono_act: "tail_idx s \<le> tail_idx (act x s)"
proof (cases x)
  case (Step u)
  then show ?thesis by (simp add: act_def tail_idx_mono_step)
next
  case (CallEnqueue u v)
  then show ?thesis using tail_idx_set_pc[of s u "Enq0 v"] by (simp add: act_def)
next
  case (CallDequeue u)
  then show ?thesis using tail_idx_set_pc[of s u Deq1] by (simp add: act_def)
next
  case (Finish u)
  then show ?thesis using tail_idx_set_pc[of s u Idle] by (auto simp: act_def split: pc.splits)
qed

lemma linked_act:
  "linked (act x s) = linked s \<or> (\<exists>u b. x = Step u \<and> linked (act x s) = linked s @ [(u, b)])"
  using linked_step by (cases x) (auto simp: act_def split: pc.splits)

lemma removed_act:
  "removed (act x s) = removed s \<or> (\<exists>u b. x = Step u \<and> removed (act x s) = removed s @ [(u, b)])"
  using removed_step by (cases x) (auto simp: act_def split: pc.splits)

lemma within_tail_act:
  assumes "a \<in> set (take (tail_idx s) (map snd (linked s)))"
  shows "a \<in> set (take (tail_idx (act x s)) (map snd (linked (act x s))))"
proof -
  from linked_act[of x s] obtain ys where l: "linked (act x s) = linked s @ ys" by auto
  from assms obtain i where i: "i < tail_idx s" "i < length (linked s)" "a = map snd (linked s) ! i"
    by (auto simp: in_set_conv_nth)
  with tail_idx_mono_act[of s x] have "i < tail_idx (act x s)" by simp
  moreover have "map snd (linked (act x s)) ! i = a" using i l by (simp add: nth_append)
  moreover have "i < length (map snd (linked (act x s)))" using i l by simp
  ultimately show ?thesis by (auto simp: in_set_conv_nth intro!: exI[of _ i])
qed

lemma act_other_pc:
  assumes "x \<noteq> Step t" and "x \<noteq> Finish t" and "threads s t \<noteq> Idle"
  shows "threads (act x s) t = threads s t"
  using assms step_other_pc[of _ t s]
  by (cases x) (auto simp: act_def split: pc.splits)

lemma grown_once_mem: "grown_once t a old new \<Longrightarrow> (t, a) \<in> set new"
proof -
  assume g: "grown_once t a old new"
  then have "(t, a) \<in> set (filter (\<lambda>e. fst e = t) (drop (length old) new))"
    by (simp add: grown_once_def)
  then have "(t, a) \<in> set (drop (length old) new)" by simp
  then show ?thesis by (rule in_set_dropD)
qed

lemma in_enqueue_other:
  assumes ie: "in_enqueue s0 t v s" and x: "x \<noteq> Step t" "x \<noteq> Finish t"
  shows "in_enqueue s0 t v (act x s)"
proof -
  from ie have ni: "threads s t \<noteq> Idle" by (auto simp: in_enqueue_def)
  have pc: "threads (act x s) t = threads s t" using x ni by (rule act_other_pc)
  have gw: "grown_without t (linked s0) (linked (act x s))" if "grown_without t (linked s0) (linked s)"
    using linked_act[of x s] that x(1) by (auto intro: grown_without_other)
  have go: "grown_once t a (linked s0) (linked (act x s))" if "grown_once t a (linked s0) (linked s)" for a
    using linked_act[of x s] that x(1) by (auto intro: grown_once_other)
  show ?thesis
  proof (cases "threads s t")
    case (Done r)
    with ie obtain a where "r = EnqueueRet None" "holds s a v" "grown_once t a (linked s0) (linked s)"
      "a \<in> set (take (tail_idx s) (map snd (linked s)))"
      by (auto simp: in_enqueue_def)
    with go[of a] holds_act[of s a v x] within_tail_act[of a s x]
    have "r = EnqueueRet None \<and> (\<exists>a. holds (act x s) a v \<and> grown_once t a (linked s0) (linked (act x s)) \<and>
               a \<in> set (take (tail_idx (act x s)) (map snd (linked (act x s)))))" by blast
    with Done pc show ?thesis by (simp add: in_enqueue_def)
  qed (use ie pc gw go holds_act[of s _ v x] in \<open>auto simp: in_enqueue_def\<close>)
qed


lemma in_enqueue_own:
  assumes inv: "clq_inv s" and ie: "in_enqueue s0 t v s"
  shows "in_enqueue s0 t v (step t s)"
proof (cases "threads s t")
  case (Enq0 w)
  with ie show ?thesis
    by (simp add: in_enqueue_def step_def holds_def)
next
  case (Enq1 a)
  with ie show ?thesis by (simp add: in_enqueue_def step_def holds_def)
next
  case (Enq2 a tp)
  from inv have "wf_local s t" by (simp add: clq_inv_def)
  with Enq2 obtain tp' where "tp = Some tp'" by (auto simp: wf_local_def)
  with Enq2 ie show ?thesis by (simp add: in_enqueue_def step_def holds_def)
next
  case (Enq3 a tp)
  from inv have "wf_local s t" by (simp add: clq_inv_def)
  with Enq3 obtain tp' where tp: "tp = Some tp'" by (auto simp: wf_local_def)
  from Enq3 ie have h: "holds s a v" and g: "grown_without t (linked s0) (linked s)"
    by (simp_all add: in_enqueue_def)
  show ?thesis
  proof (cases "nxt (nodes s ! tp') = None")
    case True
    from h have "holds ((set_nxt tp' (Some a) s)\<lparr>linked := linked s @ [(t, a)]\<rparr>) a v"
      by (simp add: holds_def set_nxt_def val_list_update)
    with Enq3 tp True grown_without_own[OF g, of a] show ?thesis
      by (simp add: in_enqueue_def step_def holds_def)
  next
    case False
    with Enq3 tp ie show ?thesis by (auto simp: in_enqueue_def step_def holds_def)
  qed
next
  case (Enq4 a tp)
  from Enq4 ie have h: "holds s a v" and g: "grown_once t a (linked s0) (linked s)"
    by (simp_all add: in_enqueue_def)
  define s' where "s' = step t s"
  have st: "s' = set_pc t (Done (EnqueueRet None)) (if tail s = tp then s\<lparr>tail := Some a\<rparr> else s)"
    using Enq4 by (simp add: s'_def step_def)
  from inv have "wf_tail s" by (simp add: clq_inv_def)
  with Enq4 have u: "\<forall>t' a' tp'. threads s t' = Enq4 a' tp' \<longrightarrow> t' = t"
    unfolding wf_tail_def by blast
  have n4: "\<not> (\<exists>t' a' tp'. threads s' t' = Enq4 a' tp')"
    using u unfolding st by (auto simp: fun_upd_apply split: if_splits)
  have f: "linked s' = linked s" "nodes s' = nodes s" "threads s' t = Done (EnqueueRet None)"
    unfolding st by simp_all
  from n4 have "tail_idx s' = length (linked s')" by (simp add: tail_idx_def)
  moreover from grown_once_mem[OF g] have "a \<in> set (map snd (linked s))" by force
  ultimately have "a \<in> set (take (tail_idx s') (map snd (linked s')))" by (simp add: f)
  with h g f show ?thesis unfolding s'_def[symmetric]
    by (auto simp: in_enqueue_def holds_def)
next
  case (Done r)
  with ie show ?thesis by (simp add: step_def)
qed (use ie in \<open>simp_all add: in_enqueue_def\<close>)

lemma in_enqueue_act:
  assumes "clq_inv s" and "in_enqueue s0 t v s" and "x \<noteq> Finish t"
  shows "in_enqueue s0 t v (act x s)"
proof (cases "x = Step t")
  case True
  with in_enqueue_own[OF assms(1,2)] show ?thesis by (simp add: act_def)
next
  case False
  with assms show ?thesis by (intro in_enqueue_other)
qed

lemma clq_inv_run: "clq_inv s \<Longrightarrow> clq_inv (run as s)"
proof (induction as arbitrary: s)
  case Nil
  then show ?case by (simp add: run_def)
next
  case (Cons a as)
  from act_inv[OF Cons.prems] have "clq_inv (act a s)" .
  from Cons.IH[OF this] show ?case by (simp add: run_def)
qed

lemma in_enqueue_run:
  assumes "clq_inv s" and "in_enqueue s0 t v s" and "Finish t \<notin> set as"
  shows "in_enqueue s0 t v (run as s)"
  using assms
proof (induction as arbitrary: s)
  case Nil
  then show ?case by (simp add: run_def)
next
  case (Cons a as)
  from Cons.prems have "a \<noteq> Finish t" "Finish t \<notin> set as" by auto
  with Cons.prems in_enqueue_act[of s s0 t v a] act_inv[of s a]
  have "clq_inv (act a s)" "in_enqueue s0 t v (act a s)" by simp_all
  from Cons.IH[OF this \<open>Finish t \<notin> set as\<close>] show ?case by (simp add: run_def)
qed

text \<open>
  A call of \<open>Enqueue(v)\<close> under every interleaving: when it has returned, it has returned
  \<open>nil\<close>, and during the call the goroutine has linked exactly one node, which carries \<open>v\<close>
  and is not behind the tail.
\<close>

lemma enqueue_call:
  assumes inv: "clq_inv s" and idle: "threads s t = Idle" and nf: "Finish t \<notin> set as"
    and ret: "threads (run (CallEnqueue t v # as) s) t = Done r"
  shows "r = EnqueueRet None \<and>
         (\<exists>a. holds (run (CallEnqueue t v # as) s) a v \<and>
              grown_once t a (linked s) (linked (run (CallEnqueue t v # as) s)) \<and>
              a \<in> set (take (tail_idx (run (CallEnqueue t v # as) s))
                            (map snd (linked (run (CallEnqueue t v # as) s)))))"
proof -
  define s1 where "s1 = act (CallEnqueue t v) s"
  have r: "run (CallEnqueue t v # as) s = run as s1" by (simp add: run_def s1_def)
  have "clq_inv s1" unfolding s1_def using inv by (rule act_inv)
  moreover have "in_enqueue s t v s1"
    using idle by (simp add: s1_def act_def in_enqueue_def grown_without_refl)
  ultimately have "in_enqueue s t v (run as s1)" using nf by (rule in_enqueue_run)
  with ret show ?thesis unfolding r by (simp add: in_enqueue_def)
qed

lemma in_dequeue_other:
  assumes ie: "in_dequeue s0 t s" and x: "x \<noteq> Step t" "x \<noteq> Finish t"
  shows "in_dequeue s0 t (act x s)"
proof -
  from ie have ni: "threads s t \<noteq> Idle" by (auto simp: in_dequeue_def)
  have pc: "threads (act x s) t = threads s t" using x ni by (rule act_other_pc)
  have gw: "grown_without t (removed s0) (removed (act x s))" if "grown_without t (removed s0) (removed s)"
    using removed_act[of x s] that x(1) by (auto intro: grown_without_other)
  have go: "grown_once t a (removed s0) (removed (act x s))" if "grown_once t a (removed s0) (removed s)" for a
    using removed_act[of x s] that x(1) by (auto intro: grown_once_other)
  show ?thesis
  proof (cases "threads s t")
    case (Done r)
    with ie consider "r = DequeueRet (Inl ErrEmptyQueue)" "grown_without t (removed s0) (removed s)"
      | a where "r = DequeueRet (Inr (val (nodes s ! a)))" "a < length (nodes s)"
          "grown_once t a (removed s0) (removed s)"
      by (auto simp: in_dequeue_def)
    then show ?thesis
    proof cases
      case 1
      with gw Done pc show ?thesis by (simp add: in_dequeue_def)
    next
      case 2
      with go[of a] val_act[of a s x] len_act[of a s x]
      have "r = DequeueRet (Inr (val (nodes (act x s) ! a))) \<and> a < length (nodes (act x s)) \<and>
               grown_once t a (removed s0) (removed (act x s))" by simp
      then have "\<exists>a. r = DequeueRet (Inr (val (nodes (act x s) ! a))) \<and> a < length (nodes (act x s)) \<and>
               grown_once t a (removed s0) (removed (act x s))" ..
      with Done pc show ?thesis by (simp add: in_dequeue_def)
    qed
  qed (use ie pc gw in \<open>auto simp: in_dequeue_def\<close>)
qed

lemma in_dequeue_own:
  assumes inv: "clq_inv s" and ie: "in_dequeue s0 t s"
  shows "in_dequeue s0 t (step t s)"
proof (cases "threads s t")
  case Deq1
  with ie show ?thesis by (simp add: in_dequeue_def step_def)
next
  case (Deq2 hp)
  with ie show ?thesis by (simp add: in_dequeue_def step_def)
next
  case (Deq3 hp)
  from inv have "wf_local s t" by (simp add: clq_inv_def)
  with Deq3 obtain h where "hp = Some h" by (auto simp: wf_local_def)
  with Deq3 ie show ?thesis by (simp add: in_dequeue_def step_def)
next
  case (Deq4 hp hn)
  from inv have lo: "wf_local s t" and c: "wf_chain s" by (simp_all add: clq_inv_def)
  from lo Deq4 obtain i where i: "i < tail_idx s" "hn = Some (chain s ! Suc i)"
    by (auto simp: wf_local_def)
  from Deq4 ie have g: "grown_without t (removed s0) (removed s)" by (simp add: in_dequeue_def)
  define b where "b = chain s ! Suc i"
  have "Suc i < length (chain s)" using i(1) tail_idx_less[of s] by simp
  then have "b \<in> set (chain s)" unfolding b_def by (rule nth_mem)
  with c have bl: "b < length (nodes s)" unfolding wf_chain_def by blast
  show ?thesis
  proof (cases "head s = hp")
    case True
    with Deq4 i(2) bl grown_without_own[OF g, of b] show ?thesis
      by (auto simp: in_dequeue_def step_def b_def[symmetric])
  next
    case False
    with Deq4 g show ?thesis by (simp add: in_dequeue_def step_def)
  qed
next
  case (Done r)
  with ie show ?thesis by (simp add: step_def)
qed (use ie in \<open>simp_all add: in_dequeue_def\<close>)

lemma in_dequeue_act:
  assumes "clq_inv s" and "in_dequeue s0 t s" and "x \<noteq> Finish t"
  shows "in_dequeue s0 t (act x s)"
proof (cases "x = Step t")
  case True
  with in_dequeue_own[OF assms(1,2)] show ?thesis by (simp add: act_def)
next
  case False
  with assms show ?thesis by (intro in_dequeue_other)
qed

lemma in_dequeue_run:
  assumes "clq_inv s" and "in_dequeue s0 t s" and "Finish t \<notin> set as"
  shows "in_dequeue s0 t (run as s)"
  using assms
proof (induction as arbitrary: s)
  case Nil
  then show ?case by (simp add: run_def)
next
  case (Cons a as)
  from Cons.prems have "a \<noteq> Finish t" "Finish t \<notin> set as" by auto
  with Cons.prems in_dequeue_act[of s s0 t a] act_inv[of s a]
  have "clq_inv (act a s)" "in_dequeue s0 t (act a s)" by simp_all
  from Cons.IH[OF this \<open>Finish t \<notin> set as\<close>] show ?case by (simp add: run_def)
qed

text \<open>
  A call of \<open>Dequeue\<close> under every interleaving: when it has returned \<open>ErrEmptyQueue\<close> the
  goroutine has removed nothing during the call; otherwise it has returned a value and
  has removed exactly one node, which carries that value.
\<close>

lemma dequeue_call:
  assumes inv: "clq_inv s" and idle: "threads s t = Idle" and nf: "Finish t \<notin> set as"
    and ret: "threads (run (CallDequeue t # as) s) t = Done r"
  shows "r = DequeueRet (Inl ErrEmptyQueue) \<and>
           grown_without t (removed s) (removed (run (CallDequeue t # as) s)) \<or>
         (\<exists>a. r = DequeueRet (Inr (val (nodes (run (CallDequeue t # as) s) ! a))) \<and>
              a < length (nodes (run (CallDequeue t # as) s)) \<and>
              grown_once t a (removed s) (removed (run (CallDequeue t # as) s)))"
proof -
  define s1 where "s1 = act (CallDequeue t) s"
  have r: "run (CallDequeue t # as) s = run as s1" by (simp add: run_def s1_def)
  have "clq_inv s1" unfolding s1_def using inv by (rule act_inv)
  moreover have "in_dequeue s t s1"
    using idle by (simp add: s1_def act_def in_dequeue_def grown_without_refl)
  ultimately have "in_dequeue s t (run as s1)" using nf by (rule in_dequeue_run)
  with ret show ?thesis unfolding r by (simp add: in_dequeue_def)
qed

lemma run_append: "run (as @ bs) s = run bs (run as s)"
  by (simp add: run_def)

lemma run_Cons: "run (a # as) s = run as (act a s)"
  by (simp add: run_def)








lemma drain_Suc:
  "drain t (Suc n) = [CallDequeue t, Step t, Step t, Step t, Step t, Finish t] @ drain t n"
  by (simp add: drain_def)

lemma solo_dequeue_finish:
  assumes inv: "clq_inv s" and idle: "threads s t = Idle"
    and lt: "length (removed s) < tail_idx s"
  shows "run [CallDequeue t, Step t, Step t, Step t, Step t, Finish t] s =
       s\<lparr>head := Some (chain s ! Suc (length (removed s))),
          removed := removed s @ [(t, chain s ! Suc (length (removed s)))]\<rparr>"
proof -
  have "run [CallDequeue t, Step t, Step t, Step t, Step t, Finish t] s
      = act (Finish t) (run [CallDequeue t, Step t, Step t, Step t, Step t] s)"
    by (simp add: run_def)
  also have "\<dots> = set_pc t Idle (s\<lparr>head := Some (chain s ! Suc (length (removed s))),
          removed := removed s @ [(t, chain s ! Suc (length (removed s)))]\<rparr>)"
    unfolding solo_dequeue[OF inv idle lt] by (simp add: act_def set_pc_def)
  also have "\<dots> = s\<lparr>head := Some (chain s ! Suc (length (removed s))),
          removed := removed s @ [(t, chain s ! Suc (length (removed s)))]\<rparr>"
    using idle by (simp add: set_pc_def fun_upd_idem)
  finally show ?thesis .
qed

text \<open>
  Every linked node that is not behind the tail and was not removed is returned by
  \<open>Dequeue\<close> once the nodes linked before it have been removed.
\<close>

lemma drain_reaches:
  assumes "clq_inv s" and "threads s t = Idle"
    and "length (removed s) \<le> i" and "i < tail_idx s"
  shows "threads (run (drain t (i - length (removed s)) @ [CallDequeue t, Step t, Step t, Step t, Step t]) s) t
           = Done (DequeueRet (Inr (val (nodes s ! snd (linked s ! i)))))"
  using assms
proof (induction "i - length (removed s)" arbitrary: s)
  case 0
  then have lt: "length (removed s) < tail_idx s" and e: "i = length (removed s)" by simp_all
  have "i < length (linked s)" using "0.prems"(4) tail_idx_less[of s] by simp
  then have "chain s ! Suc i = snd (linked s ! i)" by (simp add: chain_def)
  with 0 solo_dequeue[OF "0.prems"(1,2) lt] e show ?case by (simp add: drain_def)
next
  case (Suc n)
  then have lt: "length (removed s) < tail_idx s" by simp
  define s2 where "s2 = s\<lparr>head := Some (chain s ! Suc (length (removed s))),
          removed := removed s @ [(t, chain s ! Suc (length (removed s)))]\<rparr>"
  have r: "run [CallDequeue t, Step t, Step t, Step t, Step t, Finish t] s = s2"
    unfolding s2_def using Suc.prems(1,2) lt by (rule solo_dequeue_finish)
  have i2: "clq_inv s2" unfolding r[symmetric] using Suc.prems(1) by (rule clq_inv_run)
  have f: "threads s2 = threads s" "linked s2 = linked s" "nodes s2 = nodes s"
    "length (removed s2) = Suc (length (removed s))"
    by (simp_all add: s2_def)
  have ti: "tail_idx s2 = tail_idx s" by (simp add: tail_idx_def f chain_def)
  have n: "n = i - length (removed s2)" using Suc.hyps(2) f by simp
  have ih: "threads (run (drain t (i - length (removed s2)) @ [CallDequeue t, Step t, Step t, Step t, Step t]) s2) t
           = Done (DequeueRet (Inr (val (nodes s2 ! snd (linked s2 ! i)))))"
    using Suc.hyps(2) Suc.prems f ti i2 by (intro Suc.hyps(1)[OF n]) simp_all
  have d: "drain t (i - length (removed s)) =
      [CallDequeue t, Step t, Step t, Step t, Step t, Finish t] @ drain t (i - length (removed s2))"
  proof -
    from Suc.hyps(2) n have "i - length (removed s) = Suc (i - length (removed s2))" by simp
    then show ?thesis by (simp only: drain_Suc)
  qed
  have "run (drain t (i - length (removed s)) @ [CallDequeue t, Step t, Step t, Step t, Step t]) s
      = run (drain t (i - length (removed s2)) @ [CallDequeue t, Step t, Step t, Step t, Step t]) s2"
    unfolding d by (simp only: run_append r append_assoc)
  with ih show ?case by (simp add: f)
qed



lemma clq_spin_eq:
  "clq_spin = \<lparr>nodes = [\<lparr>val = 0, nxt = Some 1\<rparr>, \<lparr>val = 5, nxt = Some 2\<rparr>, \<lparr>val = 6, nxt = None\<rparr>,
                        \<lparr>val = 9, nxt = None\<rparr>],
     head = Some 0, tail = Some 1, threads = (\<lambda>t. Idle)(1 := Enq4 2 (Some 1), 0 := Enq1 3),
     linked = [(0, 1), (1, 2)], removed = []\<rparr>"
  by (simp add: clq_spin_def clq_lagging_eq clq_run_defs fun_eq_iff)

lemma clq_spin_reachable: "clq_reachable clq_spin"
  unfolding clq_spin_def by (rule run_reachable[OF clq_lagging_reachable])

lemma clq_spin_loop: "run [Step 0, Step 0] clq_spin = clq_spin"
  by (simp add: clq_spin_eq clq_run_defs fun_eq_iff)

text \<open>
  The claim C4 says that \<open>Enqueue\<close> always eventually returns. In the reachable state
  \<open>clq_spin\<close> goroutine 1 has linked its node for 6 and has not yet swung the tail, and
  goroutine 0 is at the head of the loop of \<open>Enqueue(9)\<close>. Two steps of goroutine 0 (it
  loads the tail, finds that the tail's node has a successor and goes round) lead back
  to the same state: as long as goroutine 1 takes no step, the call of goroutine 0
  does not return.
\<close>

theorem clq_enqueue_spins:
  "clq_reachable clq_spin \<and> threads clq_spin 0 = Enq1 3 \<and> threads clq_spin 1 = Enq4 2 (Some 1)
   \<and> run [Step 0, Step 0] clq_spin = clq_spin
   \<and> run [Step 0, Step 0, Step 0, Step 0, Step 0, Step 0] clq_spin = clq_spin"
proof -
  have "threads clq_spin 0 = Enq1 3" "threads clq_spin 1 = Enq4 2 (Some 1)"
    by (simp_all add: clq_spin_eq)
  moreover have "run [Step 0, Step 0, Step 0, Step 0, Step 0, Step 0] clq_spin
      = run [Step 0, Step 0] (run [Step 0, Step 0] (run [Step 0, Step 0] clq_spin))"
    by (simp add: run_def)
  ultimately show ?thesis using clq_spin_reachable clq_spin_loop by simp
qed

lemma race_enqueue_returns:
  "threads (run (CallEnqueue 0 5 # [CallEnqueue 1 6, Step 0, Step 1, Step 1, Step 0, Step 1, Step 0,
       Step 1, Step 0, Step 1, Step 0, Step 0, Step 0, Step 0]) (NewConcurrentLinkedQueue (0::int))) 0
     = Done (EnqueueRet None)"
  by (simp add: clq_run_defs)

lemma race_dequeue_returns:
  "threads (run (CallDequeue 2 # [Step 2, CallDequeue 3, Step 3, Step 3, Step 3, Step 3, Step 2, Step 2,
       Step 2, Step 2, Step 2]) clq_race) 2
     = Done (DequeueRet (Inl ErrEmptyQueue))"
  "threads (run (CallDequeue 3 # [Step 3, Step 3, Step 3, Step 3, Step 2, Step 2,
       Step 2, Step 2, Step 2]) (run [CallDequeue 2, Step 2] clq_race)) 3
     = Done (DequeueRet (Inr 5))"
  by (simp_all add: clq_race_eq clq_run_defs)





text \<open>
  Claim C9. In every state that any interleaving of any goroutines reaches:
  \<^item> a node is linked once and removed at most once, and keeps its value; the lists of
    linked and of removed nodes only grow, and a node that is not behind the tail never
    comes to lie behind it;
  \<^item> whatever the other goroutines do during a call of \<open>Enqueue(v)\<close>, when the call has
    returned \<open>nil\<close> the goroutine has linked exactly one node, which carries \<open>v\<close> and is not
    behind the tail;
  \<^item> whatever the other goroutines do during a call of \<open>Dequeue\<close>, when the call has
    returned a value it is the value of the one node that the call has removed, and when
    it has returned \<open>ErrEmptyQueue\<close> the call has removed nothing; so no node's value is
    returned twice;
  \<^item> the nodes are removed in the order in which they were linked, so the nodes of one
    producer are removed in the order of its successful compare-and-swaps;
  \<^item> every linked node that was not removed is reached from the head; only the last
    node can lie behind the tail, and only while the goroutine that linked it has not
    swung the tail (its call has not returned);
  \<^item> every linked node that is not behind the tail and was not removed is returned by
    \<open>Dequeue\<close>: an idle goroutine that runs \<open>Dequeue\<close> alone removes the oldest such node and
    returns its value, and after as many calls as there are remaining nodes before it,
    the next call returns the value of the node.
\<close>

theorem clq_fifo:
  assumes "clq_reachable s"
  shows "distinct (map snd (linked s)) \<and> distinct (map snd (removed s))
    \<and> map snd (removed s) = take (length (removed s)) (map snd (linked s))
    \<and> (\<forall>p. prefix (filter (\<lambda>a. (p, a) \<in> set (linked s)) (map snd (removed s)))
                   (map snd (filter (\<lambda>e. fst e = p) (linked s))))
    \<and> (\<forall>a<length (nodes s). a < length (nodes (act x s)) \<and>
           val (nodes (act x s) ! a) = val (nodes s ! a))
    \<and> prefix (linked s) (linked (act x s)) \<and> prefix (removed s) (removed (act x s))
    \<and> (b \<in> set (take (tail_idx s) (map snd (linked s))) \<longrightarrow>
          b \<in> set (take (tail_idx (act x s)) (map snd (linked (act x s)))))
    \<and> (threads s t = Idle \<and> Finish t \<notin> set as \<and>
        threads (run (CallEnqueue t v # as) s) t = Done r \<longrightarrow>
          r = EnqueueRet None \<and>
          (\<exists>a. holds (run (CallEnqueue t v # as) s) a v \<and>
               grown_once t a (linked s) (linked (run (CallEnqueue t v # as) s)) \<and>
               a \<in> set (take (tail_idx (run (CallEnqueue t v # as) s))
                             (map snd (linked (run (CallEnqueue t v # as) s))))))
    \<and> (threads s t = Idle \<and> Finish t \<notin> set as \<and>
        threads (run (CallDequeue t # as) s) t = Done r \<longrightarrow>
          r = DequeueRet (Inl ErrEmptyQueue) \<and>
            grown_without t (removed s) (removed (run (CallDequeue t # as) s)) \<or>
          (\<exists>a. r = DequeueRet (Inr (val (nodes (run (CallDequeue t # as) s) ! a))) \<and>
               a < length (nodes (run (CallDequeue t # as) s)) \<and>
               grown_once t a (removed s) (removed (run (CallDequeue t # as) s))))
    \<and> head s = Some (chain s ! length (removed s))
    \<and> (\<forall>i. length (removed s) \<le> i \<and> Suc i < length (chain s) \<longrightarrow>
           nxt (nodes s ! (chain s ! i)) = Some (chain s ! Suc i))
    \<and> tail s = Some (chain s ! tail_idx s) \<and> length (removed s) \<le> tail_idx s
    \<and> length (linked s) \<le> Suc (tail_idx s)
    \<and> (tail_idx s < length (linked s) \<longrightarrow> (\<exists>p. threads s p = Enq4 (last (chain s)) (tail s)))
    \<and> (threads s t = Idle \<and> length (removed s) < tail_idx s \<longrightarrow>
          threads (run [CallDequeue t, Step t, Step t, Step t, Step t] s) t
            = Done (DequeueRet (Inr (val (nodes s ! (map snd (linked s) ! length (removed s))))))
          \<and> removed (run [CallDequeue t, Step t, Step t, Step t, Step t] s)
            = removed s @ [(t, map snd (linked s) ! length (removed s))])
    \<and> (threads s t = Idle \<and> length (removed s) \<le> i \<and> i < tail_idx s \<longrightarrow>
          threads (run (drain t (i - length (removed s)) @
                        [CallDequeue t, Step t, Step t, Step t, Step t]) s) t
            = Done (DequeueRet (Inr (val (nodes s ! snd (linked s ! i))))))"
proof -
  from assms have inv: "clq_inv s" by (rule clq_reachable_inv)
  then have c: "wf_chain s" and h: "wf_head s" and tl: "wf_tail s" by (simp_all add: clq_inv_def)
  define l where "l = map snd (linked s)"
  define k where "k = length (removed s)"
  have dl: "distinct l" using c by (simp add: wf_chain_def chain_def l_def)
  have rm: "map snd (removed s) = take k l" and kl: "k \<le> length l" and hd: "head s = Some (chain s ! k)"
    using h by (simp_all add: wf_head_def l_def k_def)
  have dr: "distinct (map snd (removed s))" using dl rm by (metis distinct_take)
  have pp: "prefix (filter (\<lambda>a. (p, a) \<in> set (linked s)) (map snd (removed s)))
                   (map snd (filter (\<lambda>e. fst e = p) (linked s)))" for p
  proof -
    have "map snd (removed s) = map snd (take k (linked s))" using rm by (simp add: l_def take_map)
    moreover have "set (take k (linked s)) \<subseteq> set (linked s)" by (rule set_take_subset)
    ultimately have "filter (\<lambda>a. (p, a) \<in> set (linked s)) (map snd (removed s))
        = map snd (filter (\<lambda>e. fst e = p) (take k (linked s)))"
      using filter_owner[of "linked s" "take k (linked s)" p] dl by (simp add: l_def)
    moreover have "prefix (filter (\<lambda>e. fst e = p) (take k (linked s))) (filter (\<lambda>e. fst e = p) (linked s))"
      by (rule prefix_filter_take)
    ultimately show ?thesis by (simp add: map_mono_prefix)
  qed
  have e6: "r = EnqueueRet None \<and>
          (\<exists>a. holds (run (CallEnqueue t v # as) s) a v \<and>
               grown_once t a (linked s) (linked (run (CallEnqueue t v # as) s)) \<and>
               a \<in> set (take (tail_idx (run (CallEnqueue t v # as) s))
                             (map snd (linked (run (CallEnqueue t v # as) s)))))"
    if "threads s t = Idle \<and> Finish t \<notin> set as \<and>
        threads (run (CallEnqueue t v # as) s) t = Done r"
    using enqueue_call[OF inv, of t as v r] that by blast
  have e7: "r = DequeueRet (Inl ErrEmptyQueue) \<and>
            grown_without t (removed s) (removed (run (CallDequeue t # as) s)) \<or>
          (\<exists>a. r = DequeueRet (Inr (val (nodes (run (CallDequeue t # as) s) ! a))) \<and>
               a < length (nodes (run (CallDequeue t # as) s)) \<and>
               grown_once t a (removed s) (removed (run (CallDequeue t # as) s)))"
    if "threads s t = Idle \<and> Finish t \<notin> set as \<and>
        threads (run (CallDequeue t # as) s) t = Done r"
    using dequeue_call[OF inv, of t as r] that by blast
  have nx: "\<forall>i. k \<le> i \<and> Suc i < length (chain s) \<longrightarrow>
           nxt (nodes s ! (chain s ! i)) = Some (chain s ! Suc i)"
    using c by (simp add: wf_chain_def)
  have t1: "tail s = Some (chain s ! tail_idx s)" "k \<le> tail_idx s"
    using tl by (simp_all add: wf_tail_def k_def)
  have t2: "length (linked s) \<le> Suc (tail_idx s)" by (auto simp: tail_idx_def)
  have t3: "\<exists>p. threads s p = Enq4 (last (chain s)) (tail s)" if "tail_idx s < length (linked s)"
  proof -
    from that obtain p a tp where e: "threads s p = Enq4 a tp"
      by (auto simp: tail_idx_def split: if_splits)
    with tl have "a = last (chain s)" "tp = tail s" unfolding wf_tail_def by blast+
    with e show ?thesis by blast
  qed
  have solo: "threads (run [CallDequeue t, Step t, Step t, Step t, Step t] s) t
            = Done (DequeueRet (Inr (val (nodes s ! (l ! k)))))
          \<and> removed (run [CallDequeue t, Step t, Step t, Step t, Step t] s) = removed s @ [(t, l ! k)]"
    if "threads s t = Idle \<and> k < tail_idx s"
  proof -
    from that have idle: "threads s t = Idle" and lt: "length (removed s) < tail_idx s"
      by (simp_all add: k_def)
    have "chain s ! Suc k = l ! k" by (simp add: chain_def l_def)
    then show ?thesis unfolding solo_dequeue[OF inv idle lt] by (simp add: k_def)
  qed
  have dq: "threads (run (drain t (i - k) @ [CallDequeue t, Step t, Step t, Step t, Step t]) s) t
            = Done (DequeueRet (Inr (val (nodes s ! snd (linked s ! i)))))"
    if "threads s t = Idle \<and> k \<le> i \<and> i < tail_idx s"
    using drain_reaches[OF inv, of t i] that by (simp add: k_def)
  have gr: "prefix (linked s) (linked (act x s))" "prefix (removed s) (removed (act x s))"
    using linked_act[of x s] removed_act[of x s] by auto
  note wt = within_tail_act[of b s x]
  from dl dr rm pp val_kept[of _ s x] gr wt e6 e7 hd nx t1 t2 t3 solo dq
  show ?thesis unfolding l_def k_def by blast
qed


lemma clq_two_eq:
  "clq_two = \<lparr>nodes = [\<lparr>val = 0, nxt = Some 1\<rparr>, \<lparr>val = 7, nxt = Some 2\<rparr>, \<lparr>val = 9, nxt = None\<rparr>],
     head = Some 0, tail = Some 2, threads = (\<lambda>t. Idle), linked = [(0, 1), (0, 2)], removed = []\<rparr>"
  by (simp add: clq_two_def clq_run_defs fun_eq_iff)

lemma clq_two_reachable: "clq_reachable clq_two"
  unfolding clq_two_def by (rule run_reachable[OF clq_init])

lemma clq_two_facts:
  "threads clq_two 2 = Idle" "removed clq_two = []" "tail_idx clq_two = 2"
  "val (nodes clq_two ! snd (linked clq_two ! 1)) = 9"
  by (simp_all add: clq_two_eq tail_idx_def chain_def)

text \<open>
  The theorem on the state in which goroutine 1 has linked its node behind the tail; on
  the state after the race that goroutine 1 won; on the race itself, which goroutine 0
  loses before it links its node; on a call of \<open>Dequeue\<close> that returns 5 while another call
  is under way; and on the queue that holds 7 and 9, where the second call of \<open>Dequeue\<close>
  returns 9.
\<close>

theorem clq_fifo_witness:
  "clq_reachable clq_lagging \<and> threads clq_lagging 2 = Idle
   \<and> linked clq_lagging = [(0, 1), (1, 2)] \<and> removed clq_lagging = []
   \<and> tail_idx clq_lagging = 1 \<and> tail_idx clq_lagging < length (linked clq_lagging)
   \<and> (\<exists>p. threads clq_lagging p = Enq4 (last (chain clq_lagging)) (tail clq_lagging))
   \<and> threads (run [CallDequeue 2, Step 2, Step 2, Step 2, Step 2] clq_lagging) 2
       = Done (DequeueRet (Inr 5))
   \<and> removed (run [CallDequeue 2, Step 2, Step 2, Step 2, Step 2] clq_lagging) = [(2, 1)]
   \<and> clq_reachable clq_race \<and> linked clq_race = [(1, 2), (0, 1)] \<and> removed clq_race = [(2, 2)]
   \<and> prefix (filter (\<lambda>a. (1, a) \<in> set (linked clq_race)) (map snd (removed clq_race)))
         (map snd (filter (\<lambda>e. fst e = 1) (linked clq_race)))
   \<and> threads (NewConcurrentLinkedQueue (0::int)) 0 = Idle
   \<and> Finish 0 \<notin> set [CallEnqueue 1 6, Step 0, Step 1, Step 1, Step 0, Step 1, Step 0,
         Step 1, Step 0, Step 1, Step 0, Step 0, Step 0, Step (0::nat)]
   \<and> threads (run (CallEnqueue 0 5 # [CallEnqueue 1 6, Step 0, Step 1, Step 1, Step 0, Step 1, Step 0,
         Step 1, Step 0, Step 1, Step 0, Step 0, Step 0, Step 0]) (NewConcurrentLinkedQueue (0::int))) 0
       = Done (EnqueueRet None)
   \<and> (\<exists>a. holds (run (CallEnqueue 0 5 # [CallEnqueue 1 6, Step 0, Step 1, Step 1, Step 0, Step 1, Step 0,
               Step 1, Step 0, Step 1, Step 0, Step 0, Step 0, Step 0]) (NewConcurrentLinkedQueue (0::int))) a 5
          \<and> grown_once 0 a (linked (NewConcurrentLinkedQueue (0::int)))
               (linked (run (CallEnqueue 0 5 # [CallEnqueue 1 6, Step 0, Step 1, Step 1, Step 0, Step 1, Step 0,
               Step 1, Step 0, Step 1, Step 0, Step 0, Step 0, Step 0]) (NewConcurrentLinkedQueue (0::int)))))
   \<and> clq_reachable (run [CallDequeue 2, Step 2] clq_race)
   \<and> threads (run [CallDequeue 2, Step 2] clq_race) 3 = Idle
   \<and> threads (run (CallDequeue 3 # [Step 3, Step 3, Step 3, Step 3, Step 2, Step 2,
         Step 2, Step 2, Step 2]) (run [CallDequeue 2, Step 2] clq_race)) 3
       = Done (DequeueRet (Inr 5))
   \<and> (\<exists>a. DequeueRet (Inr 5) = DequeueRet (Inr (val (nodes (run (CallDequeue 3 # [Step 3, Step 3, Step 3,
               Step 3, Step 2, Step 2, Step 2, Step 2, Step 2]) (run [CallDequeue 2, Step 2] clq_race)) ! a)))
          \<and> grown_once 3 a (removed (run [CallDequeue 2, Step 2] clq_race))
               (removed (run (CallDequeue 3 # [Step 3, Step 3, Step 3, Step 3, Step 2, Step 2,
                 Step 2, Step 2, Step 2]) (run [CallDequeue 2, Step 2] clq_race))))
   \<and> 1 \<in> set (take (tail_idx clq_lagging) (map snd (linked clq_lagging)))
   \<and> 1 \<in> set (take (tail_idx (act (Step 1) clq_lagging)) (map snd (linked (act (Step 1) clq_lagging))))
   \<and> clq_reachable clq_two \<and> threads clq_two 2 = Idle \<and> length (removed clq_two) \<le> 1
   \<and> 1 < tail_idx clq_two
   \<and> threads (run (drain 2 (1 - length (removed clq_two)) @
                   [CallDequeue 2, Step 2, Step 2, Step 2, Step 2]) clq_two) 2
       = Done (DequeueRet (Inr 9))"
proof -
  note l = clq_fifo[OF clq_lagging_reachable, where x = "Step 0" and t = 2]
  note r = clq_fifo[OF clq_race_reachable, where x = "Step 0" and t = 2]
  have f: "threads clq_lagging 2 = Idle" "linked clq_lagging = [(0, 1), (1, 2)]"
    "removed clq_lagging = []" "nodes clq_lagging ! 1 = \<lparr>val = 5, nxt = Some 2\<rparr>"
    by (simp_all add: clq_lagging_eq)
  have g: "linked clq_race = [(1, 2), (0, 1)]" "removed clq_race = [(2, 2)]"
    by (simp_all add: clq_race_eq)
  have lt: "tail_idx clq_lagging < length (linked clq_lagging)"
    by (simp add: clq_lagging_tail_idx f)
  from l lt have e4: "\<exists>p. threads clq_lagging p = Enq4 (last (chain clq_lagging)) (tail clq_lagging)"
    by blast
  from l f clq_lagging_tail_idx
  have d: "threads (run [CallDequeue 2, Step 2, Step 2, Step 2, Step 2] clq_lagging) 2
       = Done (DequeueRet (Inr 5))"
    "removed (run [CallDequeue 2, Step 2, Step 2, Step 2, Step 2] clq_lagging) = [(2, 1)]"
    by simp_all
  from r have p: "prefix (filter (\<lambda>a. (1, a) \<in> set (linked clq_race)) (map snd (removed clq_race)))
         (map snd (filter (\<lambda>e. fst e = 1) (linked clq_race)))" by blast
  have nf: "Finish 0 \<notin> set [CallEnqueue 1 6, Step 0, Step 1, Step 1, Step 0, Step 1, Step 0,
         Step 1, Step 0, Step 1, Step 0, Step 0, Step 0, Step (0::nat)]" by simp
  note e = clq_fifo[OF clq_init[of "0::int"], where t = 0 and v = 5
      and r = "EnqueueRet None"
      and as = "[CallEnqueue 1 6, Step 0, Step 1, Step 1, Step 0, Step 1, Step 0,
         Step 1, Step 0, Step 1, Step 0, Step 0, Step 0, Step 0]"]
  from e nf race_enqueue_returns clq_new_facts(1)[of "0::int" 0]
  have a2: "\<exists>a. holds (run (CallEnqueue 0 5 # [CallEnqueue 1 6, Step 0, Step 1, Step 1, Step 0, Step 1, Step 0,
               Step 1, Step 0, Step 1, Step 0, Step 0, Step 0, Step 0]) (NewConcurrentLinkedQueue (0::int))) a 5
          \<and> grown_once 0 a (linked (NewConcurrentLinkedQueue (0::int)))
               (linked (run (CallEnqueue 0 5 # [CallEnqueue 1 6, Step 0, Step 1, Step 1, Step 0, Step 1, Step 0,
               Step 1, Step 0, Step 1, Step 0, Step 0, Step 0, Step 0]) (NewConcurrentLinkedQueue (0::int))))"
    by blast
  have rr: "clq_reachable (run [CallDequeue 2, Step 2] clq_race)"
    by (rule run_reachable[OF clq_race_reachable])
  have id3: "threads (run [CallDequeue 2, Step 2] clq_race) 3 = Idle"
    by (simp add: clq_race_eq clq_run_defs)
  have nf3: "Finish 3 \<notin> set [Step 3, Step 3, Step 3, Step 3, Step 2, Step 2,
         Step 2, Step 2, Step (2::nat)]" by simp
  note dd = clq_fifo[OF rr, where t = 3 and r = "DequeueRet (Inr 5)"
      and as = "[Step 3, Step 3, Step 3, Step 3, Step 2, Step 2, Step 2, Step 2, Step 2]"]
  from dd id3 nf3 race_dequeue_returns(2)
  have a3: "\<exists>a. DequeueRet (Inr 5) = DequeueRet (Inr (val (nodes (run (CallDequeue 3 # [Step 3, Step 3, Step 3,
               Step 3, Step 2, Step 2, Step 2, Step 2, Step 2]) (run [CallDequeue 2, Step 2] clq_race)) ! a)))
          \<and> grown_once 3 a (removed (run [CallDequeue 2, Step 2] clq_race))
               (removed (run (CallDequeue 3 # [Step 3, Step 3, Step 3, Step 3, Step 2, Step 2,
                 Step 2, Step 2, Step 2]) (run [CallDequeue 2, Step 2] clq_race)))"
    by blast
  have w1: "1 \<in> set (take (tail_idx clq_lagging) (map snd (linked clq_lagging)))"
    by (simp add: clq_lagging_tail_idx f)
  note lw = clq_fifo[OF clq_lagging_reachable, where x = "Step 1" and b = 1]
  from lw w1
  have w2: "1 \<in> set (take (tail_idx (act (Step 1) clq_lagging)) (map snd (linked (act (Step 1) clq_lagging))))"
    by blast
  note tw = clq_fifo[OF clq_two_reachable, where t = 2 and i = 1]
  have h2: "length (removed clq_two) \<le> 1" "1 < tail_idx clq_two" by (simp_all add: clq_two_facts)
  from tw clq_two_facts(1) h2
  have "threads (run (drain 2 (1 - length (removed clq_two)) @
                   [CallDequeue 2, Step 2, Step 2, Step 2, Step 2]) clq_two) 2
       = Done (DequeueRet (Inr (val (nodes clq_two ! snd (linked clq_two ! 1)))))" by blast
  then have a4: "threads (run (drain 2 (1 - length (removed clq_two)) @
                   [CallDequeue 2, Step 2, Step 2, Step 2, Step 2]) clq_two) 2
       = Done (DequeueRet (Inr 9))" by (simp only: clq_two_facts(4))
  from clq_lagging_reachable f(1,2,3) clq_lagging_tail_idx lt e4 d clq_race_reachable g p
    clq_new_facts(1)[of "0::int" 0] nf race_enqueue_returns a2 rr id3 race_dequeue_returns(2) a3
    w1 w2 clq_two_reachable clq_two_facts(1) h2 a4
  show ?thesis by blast
qed

end
